theory Spec2Isabelle
  imports Main "HOL-Library.Word"
begin

unbundle bit_operations_syntax

section \<open>Data model of \<open>mparith::Integer\<close>\<close>

text \<open>
  The template parameter \<open>Width\<close> of \<open>Integer<Width>\<close> is either a byte count or the
  constant \<open>kUnlimited\<close> (the largest \<open>size_t\<close>). It is carried in the value as a tag.
  The only data member is \<open>_bits\<close>, a vector of \<open>std::bitset<8>\<close>, least significant
  word first.
\<close>

datatype width = Fixed nat | Unlimited

record Integer =
  Width :: width
  bits :: "8 word list"

text \<open>
  \<open>ArithmeticException\<close> carries a message, \<open>OverflowException\<close> (a subclass) carries the
  overflowed result. \<open>OutOfBounds\<close> stands for the one place where the source writes past
  the end of a vector on values that respect the class invariant (the copy in
  \<open>Get_Normalized\<close>): the behaviour of the program is undefined there, and the model
  returns this outcome instead of a value.
\<close>

datatype error = ArithmeticException string | OverflowException Integer | OutOfBounds

definition kWidth_Min :: nat where
  "kWidth_Min = 4"

definition kWord_Bits_Cnt :: nat where
  "kWord_Bits_Cnt = 8"

fun Get_Max :: "width \<Rightarrow> width \<Rightarrow> width" where
  "Get_Max (Fixed a) (Fixed b) = Fixed (max a b)"
| "Get_Max _ _ = Unlimited"

definition Is_Limited :: "width \<Rightarrow> bool" where
  "Is_Limited w = (w \<noteq> Unlimited)"

definition Is_Unlimited :: "width \<Rightarrow> bool" where
  "Is_Unlimited w = (w = Unlimited)"

text \<open>The default constructor: \<open>Width\<close> zero words, or \<open>kWidth_Min\<close> of them when unlimited.\<close>

definition Integer_new :: "width \<Rightarrow> Integer" where
  "Integer_new w =
     \<lparr>Width = w, bits = replicate (case w of Fixed n \<Rightarrow> n | Unlimited \<Rightarrow> kWidth_Min) 0\<rparr>"

text \<open>The converting copy constructor and \<open>operator=\<close>: the words are copied as they are.\<close>

definition convert :: "width \<Rightarrow> Integer \<Rightarrow> Integer" where
  "convert w x = \<lparr>Width = w, bits = bits x\<rparr>"

definition assign :: "Integer \<Rightarrow> Integer \<Rightarrow> Integer" where
  "assign this rhs = this\<lparr>bits := bits rhs\<rparr>"

definition Get_Actual_Width :: "Integer \<Rightarrow> nat" where
  "Get_Actual_Width x = (case Width x of Fixed n \<Rightarrow> n | Unlimited \<Rightarrow> length (bits x))"

definition Get_Actual_Bits_Cnt :: "Integer \<Rightarrow> nat" where
  "Get_Actual_Bits_Cnt x = Get_Actual_Width x * kWord_Bits_Cnt"

text \<open>
  \<open>operator[]\<close>, reading and writing bit \<open>idx\<close>. Every index the kernels use is below
  \<open>8 * length (bits x)\<close> on values that respect the invariant \<open>valid\<close> below.
\<close>

definition bit_at :: "Integer \<Rightarrow> nat \<Rightarrow> bool" where
  "bit_at x idx = bit (bits x ! (idx div kWord_Bits_Cnt)) (idx mod kWord_Bits_Cnt)"

definition bit_put :: "Integer \<Rightarrow> nat \<Rightarrow> bool \<Rightarrow> Integer" where
  "bit_put x idx b =
     (let w = bits x ! (idx div kWord_Bits_Cnt);
          w' = (if b then set_bit (idx mod kWord_Bits_Cnt) w
                else unset_bit (idx mod kWord_Bits_Cnt) w)
      in x\<lparr>bits := (bits x)[idx div kWord_Bits_Cnt := w']\<rparr>)"

definition Is_Positive :: "Integer \<Rightarrow> bool" where
  "Is_Positive x = (\<not> bit (bits x ! (Get_Actual_Width x - 1)) (kWord_Bits_Cnt - 1))"

text \<open>The class invariant the constructors establish.\<close>

definition valid :: "Integer \<Rightarrow> bool" where
  "valid x = (case Width x of
             Fixed n \<Rightarrow> kWidth_Min \<le> n \<and> length (bits x) = n
           | Unlimited \<Rightarrow> kWidth_Min \<le> length (bits x))"

subsection \<open>\<open>std::bitset<kBits_Cnt>\<close> of a fixed width\<close>

text \<open>A \<open>std::bitset<N>\<close> is a list of \<open>N\<close> booleans, bit 0 first.\<close>

definition Get_Bitset :: "nat \<Rightarrow> Integer \<Rightarrow> bool list" where
  "Get_Bitset n x = map (bit_at x) [0..<n * kWord_Bits_Cnt]"

definition Integer_of_bitset :: "width \<Rightarrow> bool list \<Rightarrow> Integer" where
  "Integer_of_bitset w bs =
     fold (\<lambda>idx r. if bs ! idx then bit_put r idx True else r) [0..<length bs] (Integer_new w)"

definition bitset_shl :: "bool list \<Rightarrow> nat \<Rightarrow> bool list" where
  "bitset_shl bs k = replicate (min k (length bs)) False @ take (length bs - k) bs"

definition bitset_shr :: "bool list \<Rightarrow> nat \<Rightarrow> bool list" where
  "bitset_shr bs k = drop k bs @ replicate (min k (length bs)) False"

definition bitset_flip :: "bool list \<Rightarrow> bool list" where
  "bitset_flip bs = map Not bs"

definition bitset_to_ullong :: "bool list \<Rightarrow> nat" where
  "bitset_to_ullong bs = horner_sum of_bool 2 bs"

subsection \<open>Number constants\<close>

definition kZero :: "width \<Rightarrow> Integer" where
  "kZero w = Integer_new w"

definition kOne :: "width \<Rightarrow> Integer" where
  "kOne w = bit_put (Integer_new w) 0 True"

definition kTwo :: "width \<Rightarrow> Integer" where
  "kTwo w = bit_put (Integer_new w) 1 True"

definition kTen :: "width \<Rightarrow> Integer" where
  "kTen w = bit_put (bit_put (Integer_new w) 1 True) 3 True"

subsection \<open>Normalization\<close>

text \<open>
  \<open>Get_Normalized<New_Width>(actual_width)\<close>: unchanged when the actual width is already
  the requested one; otherwise a vector of \<open>actual_width\<close> zero words receives a copy of
  all the words (\<open>std::ranges::copy\<close>, which writes past the end when there are more
  than \<open>actual_width\<close> of them) and, for a negative value, the words from index
  \<open>Get_Actual_Width()\<close> on are flipped.
\<close>

definition Get_Normalized :: "Integer \<Rightarrow> width \<Rightarrow> nat \<Rightarrow> error + Integer" where
  "Get_Normalized x new_width actual_width =
     (if Get_Actual_Width x = actual_width then Inr (convert new_width x)
      else if actual_width < length (bits x) \<or> actual_width < Get_Actual_Width x
        then Inl OutOfBounds
      else
        let copied = bits x @ replicate (actual_width - length (bits x)) 0;
            result_bits =
              (if \<not> Is_Positive x
               then take (Get_Actual_Width x) copied @ map NOT (drop (Get_Actual_Width x) copied)
               else copied)
        in Inr \<lparr>Width = new_width, bits = result_bits\<rparr>)"

definition Get_Normalized_New :: "width \<Rightarrow> nat \<Rightarrow> error + Integer" where
  "Get_Normalized_New w actual_width = Get_Normalized (Integer_new w) w actual_width"

definition Get_Normalized_Existing :: "Integer \<Rightarrow> width \<Rightarrow> nat \<Rightarrow> error + Integer" where
  "Get_Normalized_Existing x new_width actual_width = Get_Normalized x new_width actual_width"

subsection \<open>The add kernel\<close>

text \<open>
  \<open>Add\<close> returns the result together with two booleans telling whether the kernel
  assigned \<open>true\<close> to its out-parameters \<open>overflow_flag\<close> and \<open>carry_flag\<close> (it never
  assigns \<open>false\<close>); a caller that latches a flag takes the disjunction.
\<close>

definition Add_step :: "Integer \<Rightarrow> Integer \<Rightarrow> nat \<Rightarrow> Integer \<times> bool \<Rightarrow> Integer \<times> bool" where
  "Add_step left right i s =
     (case s of (result, carry) \<Rightarrow>
        (bit_put result i ((bit_at left i \<noteq> bit_at right i) \<noteq> carry),
         (bit_at left i \<and> bit_at right i) \<or> ((bit_at left i \<noteq> bit_at right i) \<and> carry)))"

definition Add :: "Integer \<Rightarrow> Integer \<Rightarrow> error + (Integer \<times> bool \<times> bool)" where
  "Add lhs rhs =
     (let Result_Width = Get_Max (Width lhs) (Width rhs);
          Result_Actual_Width = max (Get_Actual_Width lhs) (Get_Actual_Width rhs)
      in case Get_Normalized_Existing lhs Result_Width Result_Actual_Width of
           Inl e \<Rightarrow> Inl e
         | Inr left \<Rightarrow>
      (case Get_Normalized_Existing rhs Result_Width Result_Actual_Width of
           Inl e \<Rightarrow> Inl e
         | Inr right \<Rightarrow>
      (case (if Is_Unlimited Result_Width
             then Get_Normalized_Existing (Integer_new Result_Width) Result_Width Result_Actual_Width
             else Inr (Integer_new Result_Width)) of
           Inl e \<Rightarrow> Inl e
         | Inr result0 \<Rightarrow>
        (case fold (Add_step left right) [0..<Get_Actual_Bits_Cnt left] (result0, False) of
           (result1, carry) \<Rightarrow>
             let result =
                   (if Is_Unlimited Result_Width then
                      (if Is_Positive left \<and> Is_Positive right \<and> \<not> Is_Positive result1
                       then result1\<lparr>bits := bits result1 @ [0]\<rparr>
                       else if \<not> Is_Positive left \<and> \<not> Is_Positive right \<and> Is_Positive result1
                       then result1\<lparr>bits := bits result1 @ [NOT 0]\<rparr>
                       else result1)
                    else result1);
                 overflow =
                   (Is_Limited Result_Width \<and>
                    ((Is_Positive left \<and> Is_Positive right \<and> \<not> Is_Positive result) \<or>
                     (\<not> Is_Positive left \<and> \<not> Is_Positive right \<and> Is_Positive result)))
             in Inr (result, overflow, carry)))))"

subsection \<open>Inverse, complement, most significant bit, shifts\<close>

definition Get_Inverse :: "Integer \<Rightarrow> Integer" where
  "Get_Inverse x =
     (case Width x of
        Fixed n \<Rightarrow> Integer_of_bitset (Fixed n) (bitset_flip (Get_Bitset n x))
      | Unlimited \<Rightarrow>
          fold (\<lambda>i r. bit_put r i (\<not> bit_at x i)) [0..<Get_Actual_Bits_Cnt x] x)"

definition Get_Complement :: "Integer \<Rightarrow> error + Integer" where
  "Get_Complement x =
     (case Add (Get_Inverse x) (kOne (Width x)) of
        Inl e \<Rightarrow> Inl e
      | Inr (r, _, _) \<Rightarrow> Inr r)"

primrec msb_scan :: "Integer \<Rightarrow> nat \<Rightarrow> nat" where
  "msb_scan x 0 = 0"
| "msb_scan x (Suc i) = (if bit_at x (Suc i) then Suc i else msb_scan x i)"

definition Get_Msb_Idx :: "Integer \<Rightarrow> nat" where
  "Get_Msb_Idx x = msb_scan x (Get_Actual_Bits_Cnt x - 1)"

definition Get_Positive :: "Integer \<Rightarrow> error + Integer" where
  "Get_Positive x = (if Is_Positive x then Inr x else Get_Complement x)"

text \<open>
  \<open>operator<<\<close> and \<open>operator>>\<close> (private; the kernels only shift by one). A fixed
  width shifts its \<open>std::bitset\<close>; an unlimited one moves the bits one by one. The
  downward loop of \<open>operator<<\<close>, \<open>for (i = bits - 1; i >= shift; --i)\<close>, visits
  \<open>i = k + shift\<close> for \<open>k\<close> from \<open>bits - shift - 1\<close> down to \<open>0\<close>.
\<close>

primrec shl_loop :: "nat \<Rightarrow> nat \<Rightarrow> Integer \<Rightarrow> Integer" where
  "shl_loop shift 0 r = r"
| "shl_loop shift (Suc k) r = shl_loop shift k (bit_put r (k + shift) (bit_at r k))"

definition op_shl :: "Integer \<Rightarrow> nat \<Rightarrow> Integer" where
  "op_shl x shift =
     (if shift = 0 then x
      else case Width x of
        Fixed n \<Rightarrow> Integer_of_bitset (Fixed n) (bitset_shl (Get_Bitset n x) shift)
      | Unlimited \<Rightarrow>
          fold (\<lambda>i r. bit_put r i False) [0..<shift]
            (shl_loop shift (Get_Actual_Bits_Cnt x - shift) x))"

definition op_shr :: "Integer \<Rightarrow> nat \<Rightarrow> Integer" where
  "op_shr x shift =
     (if shift = 0 then x
      else case Width x of
        Fixed n \<Rightarrow> Integer_of_bitset (Fixed n) (bitset_shr (Get_Bitset n x) shift)
      | Unlimited \<Rightarrow>
          fold (\<lambda>i r. bit_put r i False)
            [Get_Actual_Bits_Cnt x - shift..<Get_Actual_Bits_Cnt x]
            (fold (\<lambda>i r. bit_put r (i - shift) (bit_at r i))
               [shift..<Get_Actual_Bits_Cnt x] x))"

subsection \<open>Equality\<close>

definition op_eq :: "Integer \<Rightarrow> Integer \<Rightarrow> error + bool" where
  "op_eq this rhs =
     (if Is_Positive this \<noteq> Is_Positive rhs then Inr False
      else
        let Result_Width = Get_Max (Width this) (Width rhs);
            Result_Actual_Width = max (Get_Actual_Width this) (Get_Actual_Width rhs)
        in case Get_Normalized_Existing this Result_Width Result_Actual_Width of
             Inl e \<Rightarrow> Inl e
           | Inr left \<Rightarrow>
        (case Get_Normalized_Existing rhs Result_Width Result_Actual_Width of
             Inl e \<Rightarrow> Inl e
           | Inr right \<Rightarrow>
        (case Result_Width of
           Fixed n \<Rightarrow> Inr (Get_Bitset n left = Get_Bitset n right)
         | Unlimited \<Rightarrow>
             Inr (list_all (\<lambda>i. bit_at left i = bit_at right i)
                    [0..<Get_Actual_Bits_Cnt left]))))"

definition op_neq :: "Integer \<Rightarrow> Integer \<Rightarrow> error + bool" where
  "op_neq this rhs = (case op_eq this rhs of Inl e \<Rightarrow> Inl e | Inr b \<Rightarrow> Inr (\<not> b))"

subsection \<open>Sign-aware operators built on the add kernel\<close>

definition op_neg :: "Integer \<Rightarrow> error + Integer" where
  "op_neg this = Get_Complement this"

definition op_plus :: "Integer \<Rightarrow> Integer \<Rightarrow> error + Integer" where
  "op_plus this rhs =
     (case Add this rhs of
        Inl e \<Rightarrow> Inl e
      | Inr (result, overflow_flag, _) \<Rightarrow>
          if overflow_flag then Inl (OverflowException result) else Inr result)"

definition op_minus :: "Integer \<Rightarrow> Integer \<Rightarrow> error + Integer" where
  "op_minus this rhs =
     (case Get_Complement rhs of Inl e \<Rightarrow> Inl e | Inr c \<Rightarrow> op_plus this c)"

subsection \<open>The multiply kernel\<close>

text \<open>
  \<open>Mul\<close> declares its local \<open>carry_flag\<close> without an initialiser and reads it after the
  loop when the width is fixed. The value it holds when no addition of the loop has set
  it is not determined by the program; it is the parameter \<open>carry_init\<close> here. The
  kernel is always called with \<open>Lhs_Width\<close> equal to the width of the class, so the
  result width is the maximum of the operands' widths.
\<close>

primrec Mul_loop ::
  "nat \<Rightarrow> Integer \<times> Integer \<times> Integer \<times> bool \<Rightarrow> error + (Integer \<times> Integer \<times> Integer \<times> bool)" where
  "Mul_loop 0 s = Inr s"
| "Mul_loop (Suc k) s =
     (case s of (result, left, right, carry_flag) \<Rightarrow>
        (case (if bit_at right 0
               then (case Add result left of
                       Inl e \<Rightarrow> Inl e
                     | Inr (r, _, c) \<Rightarrow> Inr (r, carry_flag \<or> c))
               else Inr (result, carry_flag)) of
           Inl e \<Rightarrow> Inl e
         | Inr (result', carry_flag') \<Rightarrow>
             Mul_loop k (result', op_shl left 1, op_shr right 1, carry_flag')))"

definition Shrink :: "Integer \<Rightarrow> Integer" where
  "Shrink integer =
     (let msb_idx = Get_Msb_Idx integer;
          size = max (((msb_idx + 1) div kWord_Bits_Cnt) + 1) kWidth_Min
      in integer\<lparr>bits := take size (bits integer) @ replicate (size - length (bits integer)) 0\<rparr>)"

definition Mul :: "bool \<Rightarrow> Integer \<Rightarrow> Integer \<Rightarrow> error + (Integer \<times> bool)" where
  "Mul carry_init lhs rhs =
     (let Result_Width = Get_Max (Width lhs) (Width rhs);
          Result_Actual_Width = max (Get_Actual_Width lhs) (Get_Actual_Width rhs);
          result_is_positive = (Is_Positive lhs = Is_Positive rhs)
      in case Get_Positive lhs of Inl e \<Rightarrow> Inl e | Inr lp \<Rightarrow>
      (case Get_Normalized_Existing lp Result_Width Result_Actual_Width of
         Inl e \<Rightarrow> Inl e | Inr left0 \<Rightarrow>
      (case Get_Positive rhs of Inl e \<Rightarrow> Inl e | Inr rp \<Rightarrow>
      (case Get_Normalized_Existing rp Result_Width Result_Actual_Width of
         Inl e \<Rightarrow> Inl e | Inr right0 \<Rightarrow>
      (case (if Is_Unlimited Result_Width
             then Get_Normalized_Existing left0 Result_Width (2 * Result_Actual_Width)
             else Inr left0) of
         Inl e \<Rightarrow> Inl e | Inr left \<Rightarrow>
      (case (if Is_Unlimited Result_Width
             then Get_Normalized_Existing right0 Result_Width (2 * Result_Actual_Width)
             else Inr right0) of
         Inl e \<Rightarrow> Inl e | Inr right \<Rightarrow>
      (case Mul_loop (Get_Msb_Idx right + 1)
              (Integer_new Result_Width, left, right, carry_init) of
         Inl e \<Rightarrow> Inl e
       | Inr (result1, _, _, carry_flag) \<Rightarrow>
           let overflow = (Is_Limited Result_Width \<and> (carry_flag \<or> \<not> Is_Positive result1));
               result = (if Is_Unlimited Result_Width then Shrink result1 else result1)
           in if result_is_positive then Inr (result, overflow)
              else (case Get_Complement result of
                      Inl e \<Rightarrow> Inl e
                    | Inr c \<Rightarrow> Inr (c, overflow)))))))))"

definition op_times :: "bool \<Rightarrow> Integer \<Rightarrow> Integer \<Rightarrow> error + Integer" where
  "op_times carry_init this rhs =
     (case Mul carry_init this rhs of
        Inl e \<Rightarrow> Inl e
      | Inr (result, overflow_flag) \<Rightarrow>
          if overflow_flag then Inl (OverflowException result) else Inr result)"

subsection \<open>The divide/modulo kernel\<close>

text \<open>
  \<open>Div_Mod\<close> is a static member of the class of its left operand, so the constant
  \<open>kZero\<close> it compares with and returns is the zero of the left operand's width.
  The loop visits the bit positions \<open>numerator_msb - i\<close> for \<open>i = 0, ..., numerator_msb\<close>.
\<close>

fun Div_Mod_loop ::
  "nat list \<Rightarrow> Integer \<Rightarrow> Integer \<Rightarrow> Integer \<times> Integer \<Rightarrow> error + (Integer \<times> Integer)" where
  "Div_Mod_loop [] numerator denominator s = Inr s"
| "Div_Mod_loop (idx # idxs) numerator denominator s =
     (case s of (quot, remainder) \<Rightarrow>
        let remainder1 = bit_put (op_shl remainder 1) 0 (bit_at numerator idx)
        in (case op_minus remainder1 denominator of
              Inl e \<Rightarrow> Inl e
            | Inr difference \<Rightarrow>
                if Is_Positive difference
                then Div_Mod_loop idxs numerator denominator
                       (bit_put quot idx True, assign remainder1 difference)
                else Div_Mod_loop idxs numerator denominator (quot, remainder1)))"

definition Div_Mod :: "Integer \<Rightarrow> Integer \<Rightarrow> error + (Integer \<times> Integer)" where
  "Div_Mod lhs rhs =
     (case op_eq rhs (kZero (Width lhs)) of
        Inl e \<Rightarrow> Inl e
      | Inr True \<Rightarrow> Inl (ArithmeticException ''Division By Zero'')
      | Inr False \<Rightarrow>
     (case op_eq lhs (kZero (Width lhs)) of
        Inl e \<Rightarrow> Inl e
      | Inr True \<Rightarrow>
          Inr (convert (Get_Max (Width lhs) (Width rhs)) (kZero (Width lhs)),
               convert (Get_Max (Width lhs) (Width rhs)) (kZero (Width lhs)))
      | Inr False \<Rightarrow>
     (let Result_Width = Get_Max (Width lhs) (Width rhs);
          Result_Actual_Width = max (Get_Actual_Width lhs) (Get_Actual_Width rhs);
          result_is_positive = (Is_Positive lhs = Is_Positive rhs)
      in case Get_Positive lhs of Inl e \<Rightarrow> Inl e | Inr lp \<Rightarrow>
      (case Get_Normalized_Existing lp Result_Width Result_Actual_Width of
         Inl e \<Rightarrow> Inl e | Inr numerator \<Rightarrow>
      (case Get_Positive rhs of Inl e \<Rightarrow> Inl e | Inr rp \<Rightarrow>
      (case Get_Normalized_Existing rp Result_Width Result_Actual_Width of
         Inl e \<Rightarrow> Inl e | Inr denominator \<Rightarrow>
      (case Get_Normalized_New Result_Width Result_Actual_Width of
         Inl e \<Rightarrow> Inl e | Inr zero \<Rightarrow>
      (case Div_Mod_loop
              (map (\<lambda>i. Get_Msb_Idx numerator - i) [0..<Get_Msb_Idx numerator + 1])
              numerator denominator (zero, zero) of
         Inl e \<Rightarrow> Inl e
       | Inr (quot, remainder) \<Rightarrow>
           if result_is_positive then Inr (quot, remainder)
           else (case Get_Complement quot of
                   Inl e \<Rightarrow> Inl e
                 | Inr c \<Rightarrow> Inr (c, remainder))))))))))"

definition op_div :: "Integer \<Rightarrow> Integer \<Rightarrow> error + Integer" where
  "op_div this rhs = (case Div_Mod this rhs of Inl e \<Rightarrow> Inl e | Inr (q, r) \<Rightarrow> Inr q)"

definition op_mod :: "Integer \<Rightarrow> Integer \<Rightarrow> error + Integer" where
  "op_mod this rhs = (case Div_Mod this rhs of Inl e \<Rightarrow> Inl e | Inr (q, r) \<Rightarrow> Inr r)"

subsection \<open>Increment, decrement and compound assignment\<close>

text \<open>
  These rebind the receiver: \<open>*this = ((*this) + rhs)\<close>. The model returns the outcome
  (the exception thrown, if any) and the receiver as it is afterwards.
\<close>

definition rebind :: "Integer \<Rightarrow> error + Integer \<Rightarrow> error option \<times> Integer" where
  "rebind this r = (case r of Inl e \<Rightarrow> (Some e, this) | Inr v \<Rightarrow> (None, assign this v))"

definition op_plus_assign :: "Integer \<Rightarrow> Integer \<Rightarrow> error option \<times> Integer" where
  "op_plus_assign this rhs = rebind this (op_plus this rhs)"

definition op_minus_assign :: "Integer \<Rightarrow> Integer \<Rightarrow> error option \<times> Integer" where
  "op_minus_assign this rhs = rebind this (op_minus this rhs)"

definition op_times_assign :: "bool \<Rightarrow> Integer \<Rightarrow> Integer \<Rightarrow> error option \<times> Integer" where
  "op_times_assign carry_init this rhs = rebind this (op_times carry_init this rhs)"

definition op_div_assign :: "Integer \<Rightarrow> Integer \<Rightarrow> error option \<times> Integer" where
  "op_div_assign this rhs = rebind this (op_div this rhs)"

definition op_mod_assign :: "Integer \<Rightarrow> Integer \<Rightarrow> error option \<times> Integer" where
  "op_mod_assign this rhs = rebind this (op_mod this rhs)"

definition op_inc :: "Integer \<Rightarrow> error option \<times> Integer" where
  "op_inc this = rebind this (op_plus this (kOne (Width this)))"

definition op_dec :: "Integer \<Rightarrow> error option \<times> Integer" where
  "op_dec this = rebind this (op_minus this (kOne (Width this)))"

subsection \<open>Factorial\<close>

text \<open>
  The loop \<open>for (multiplier = kTwo; multiplier != *this; ++multiplier)\<close> has no bound of
  its own, so it is a partial function: \<open>None\<close> means that it does not return.
\<close>

lemma case_sum_mono [partial_function_mono]:
  assumes "\<And>x. mono_option (\<lambda>f. l f x)" and "\<And>y. mono_option (\<lambda>f. r f y)"
  shows "mono_option (\<lambda>f. case s of Inl x \<Rightarrow> l f x | Inr y \<Rightarrow> r f y)"
  using assms by (cases s) simp_all

lemma case_bool_mono [partial_function_mono]:
  assumes "mono_option (\<lambda>f. t f)" and "mono_option (\<lambda>f. e f)"
  shows "mono_option (\<lambda>f. case b of True \<Rightarrow> t f | False \<Rightarrow> e f)"
  using assms by (cases b) simp_all

partial_function (option) Factorial_loop ::
  "bool \<Rightarrow> Integer \<Rightarrow> Integer \<Rightarrow> Integer \<Rightarrow> bool \<Rightarrow> (error + (Integer \<times> bool)) option" where
  "Factorial_loop carry_init this multiplier result overflow_flag =
     (case op_neq multiplier this of
        Inl e \<Rightarrow> Some (Inl e)
      | Inr False \<Rightarrow> Some (Inr (result, overflow_flag))
      | Inr True \<Rightarrow>
          (case Mul carry_init result multiplier of
             Inl e \<Rightarrow> Some (Inl e)
           | Inr (p, ov) \<Rightarrow>
               (case op_inc multiplier of
                  (Some e, _) \<Rightarrow> Some (Inl e)
                | (None, multiplier') \<Rightarrow>
                    Factorial_loop carry_init this multiplier' (assign result p)
                      (overflow_flag \<or> ov))))"

declare Factorial_loop.simps [code]

definition Factorial :: "bool \<Rightarrow> Integer \<Rightarrow> (error + Integer) option" where
  "Factorial carry_init this =
     (if \<not> Is_Positive this
      then Some (Inl (ArithmeticException ''Factorial Of Negative Number''))
      else case op_eq this (kZero (Width this)) of
        Inl e \<Rightarrow> Some (Inl e)
      | Inr True \<Rightarrow> Some (Inr (kOne (Width this)))
      | Inr False \<Rightarrow>
     (case op_eq this (kOne (Width this)) of
        Inl e \<Rightarrow> Some (Inl e)
      | Inr True \<Rightarrow> Some (Inr (kOne (Width this)))
      | Inr False \<Rightarrow>
     (case Factorial_loop carry_init this (kTwo (Width this)) this False of
        None \<Rightarrow> None
      | Some (Inl e) \<Rightarrow> Some (Inl e)
      | Some (Inr (result, overflow_flag)) \<Rightarrow>
          if overflow_flag then Some (Inl (OverflowException result))
          else Some (Inr result))))"

subsection \<open>Serialization\<close>

text \<open>
  \<open>Serialize\<close> pushes one decimal digit per round on a stack (a list, top first) while
  \<open>copy != kZero\<close>, dividing \<open>copy\<close> by ten each round. The loop has no bound of its
  own and is a partial function. \<open>Serialize\<close> is declared \<open>noexcept\<close>: an exception of
  the operators it calls would end the program; the model returns it as the outcome.
\<close>

definition digit_char :: "Integer \<Rightarrow> char" where
  "digit_char m =
     char_of (bitset_to_ullong (map (bit_at m) [0..<kWord_Bits_Cnt]) + of_char CHR ''0'' :: nat)"

partial_function (option) Serialize_loop ::
  "Integer \<Rightarrow> string \<Rightarrow> (error + string) option" where
  "Serialize_loop copy stack =
     (case op_neq copy (kZero (Width copy)) of
        Inl e \<Rightarrow> Some (Inl e)
      | Inr False \<Rightarrow> Some (Inr stack)
      | Inr True \<Rightarrow>
          (case op_mod copy (kTen (Width copy)) of
             Inl e \<Rightarrow> Some (Inl e)
           | Inr m \<Rightarrow>
               (case op_div_assign copy (kTen (Width copy)) of
                  (Some e, _) \<Rightarrow> Some (Inl e)
                | (None, copy') \<Rightarrow> Serialize_loop copy' (digit_char m # stack))))"

declare Serialize_loop.simps [code]

definition Serialize :: "Integer \<Rightarrow> (error + string) option" where
  "Serialize this =
     (case (if \<not> Is_Positive this
            then (case Get_Complement this of
                    Inl e \<Rightarrow> Inl e
                  | Inr c \<Rightarrow> Inr (assign this c, False))
            else Inr (this, True)) of
        Inl e \<Rightarrow> Some (Inl e)
      | Inr (copy, is_positive) \<Rightarrow>
     (case op_eq this (kZero (Width this)) of
        Inl e \<Rightarrow> Some (Inl e)
      | Inr True \<Rightarrow> Some (Inr ''0'')
      | Inr False \<Rightarrow>
     (case Serialize_loop copy [] of
        None \<Rightarrow> None
      | Some (Inl e) \<Rightarrow> Some (Inl e)
      | Some (Inr stack) \<Rightarrow>
          Some (Inr (if is_positive then stack else CHR ''-'' # stack)))))"

text \<open>
  \<open>Deserialize\<close> reads the characters in order; a sign is recognised at index 0 only.
  The state is the value so far, the sign and the latched overflow flag.
\<close>

definition digit_Integer :: "width \<Rightarrow> char \<Rightarrow> Integer" where
  "digit_Integer w c =
     Integer_of_bitset w
       (map (bit ((of_char c :: 8 word) - of_char CHR ''0'')) [0..<kWord_Bits_Cnt])"

fun Deserialize_loop ::
  "bool \<Rightarrow> width \<Rightarrow> nat \<Rightarrow> string \<Rightarrow> Integer \<times> bool \<times> bool \<Rightarrow> error + (Integer \<times> bool \<times> bool)" where
  "Deserialize_loop carry_init w i [] s = Inr s"
| "Deserialize_loop carry_init w i (c # cs) s =
     (case s of (result, is_positive, overflow_flag) \<Rightarrow>
        if i = 0 \<and> c = CHR ''+'' then Deserialize_loop carry_init w (Suc i) cs s
        else if i = 0 \<and> c = CHR ''-''
          then Deserialize_loop carry_init w (Suc i) cs (result, False, overflow_flag)
        else
          (case (if i = 0 then Inr (result, overflow_flag)
                 else (case Mul carry_init result (kTen w) of
                         Inl e \<Rightarrow> Inl e
                       | Inr (p, ov) \<Rightarrow> Inr (assign result p, overflow_flag \<or> ov))) of
             Inl e \<Rightarrow> Inl e
           | Inr (result1, overflow1) \<Rightarrow>
               (case Add result1 (digit_Integer w c) of
                  Inl e \<Rightarrow> Inl e
                | Inr (r, ov, _) \<Rightarrow>
                    Deserialize_loop carry_init w (Suc i) cs
                      (assign result1 r, is_positive, overflow1 \<or> ov))))"

definition Deserialize :: "bool \<Rightarrow> width \<Rightarrow> string \<Rightarrow> error + Integer" where
  "Deserialize carry_init w str =
     (case Deserialize_loop carry_init w 0 str (Integer_new w, True, False) of
        Inl e \<Rightarrow> Inl e
      | Inr (result, is_positive, overflow_flag) \<Rightarrow>
          if overflow_flag then Inl (OverflowException result)
          else if is_positive then Inr result
          else Get_Complement result)"

section \<open>Abstraction: values of word vectors, and particular values\<close>

definition uval :: "8 word list \<Rightarrow> int" where
  "uval ws = horner_sum uint 256 ws"

definition uv :: "Integer \<Rightarrow> int" where
  "uv x = uval (bits x)"

definition nbits :: "Integer \<Rightarrow> nat" where
  "nbits x = 8 * length (bits x)"

definition ival :: "Integer \<Rightarrow> int" where
  "ival x = (if bit (uv x) (nbits x - 1) then uv x - 2 ^ nbits x else uv x)"

definition fits :: "nat \<Rightarrow> int \<Rightarrow> bool" where
  "fits A s \<longleftrightarrow> - (2 ^ (8 * A - 1)) \<le> s \<and> s < 2 ^ (8 * A - 1)"

definition valid_width :: "width \<Rightarrow> bool" where
  "valid_width w = (case w of Fixed n \<Rightarrow> kWidth_Min \<le> n | Unlimited \<Rightarrow> True)"

definition is_zero :: "Integer \<Rightarrow> bool" where
  "is_zero x = list_all (\<lambda>w. w = 0) (bits x)"

definition most_negative :: "Integer \<Rightarrow> bool" where
  "most_negative x = (bits x = replicate (length (bits x) - 1) 0 @ [128])"

definition int_max4 :: Integer where
  "int_max4 = \<lparr>Width = Fixed 4, bits = [255, 255, 255, 127]\<rparr>"

definition int_min4 :: Integer where
  "int_min4 = \<lparr>Width = Fixed 4, bits = [0, 0, 0, 128]\<rparr>"

definition zero4_as8 :: Integer where
  "zero4_as8 = \<lparr>Width = Fixed 8, bits = [0, 0, 0, 0]\<rparr>"

definition pow31_u :: Integer where
  "pow31_u = \<lparr>Width = Unlimited, bits = [0, 0, 0, 128, 0]\<rparr>"

definition neg_pow31_u :: Integer where
  "neg_pow31_u = \<lparr>Width = Unlimited, bits = [0, 0, 0, 128, 255]\<rparr>"

definition neg_pow31_short :: Integer where
  "neg_pow31_short = \<lparr>Width = Unlimited, bits = [0, 0, 0, 128]\<rparr>"

definition zero5_u :: Integer where
  "zero5_u = \<lparr>Width = Unlimited, bits = [0, 0, 0, 0, 0]\<rparr>"

definition minus7_4 :: Integer where
  "minus7_4 = \<lparr>Width = Fixed 4, bits = [249, 255, 255, 255]\<rparr>"

definition minus3_4 :: Integer where
  "minus3_4 = \<lparr>Width = Fixed 4, bits = [253, 255, 255, 255]\<rparr>"

definition minus6_4 :: Integer where
  "minus6_4 = \<lparr>Width = Fixed 4, bits = [250, 255, 255, 255]\<rparr>"

definition minus5_4 :: Integer where
  "minus5_4 = \<lparr>Width = Fixed 4, bits = [251, 255, 255, 255]\<rparr>"

definition minus_int_max4 :: Integer where
  "minus_int_max4 = \<lparr>Width = Fixed 4, bits = [1, 0, 0, 128]\<rparr>"

definition minus_int_max_u :: Integer where
  "minus_int_max_u = \<lparr>Width = Unlimited, bits = [1, 0, 0, 128]\<rparr>"

definition one5_u :: Integer where
  "one5_u = \<lparr>Width = Unlimited, bits = [1, 0, 0, 0, 0]\<rparr>"

definition minus1_u :: Integer where
  "minus1_u = \<lparr>Width = Unlimited, bits = [255, 255, 255, 255]\<rparr>"

section \<open>Properties of the kernels\<close>

subsection \<open>Word vectors as numbers\<close>

lemma bit_uval: "bit (uval ws) n \<longleftrightarrow> n < 8 * length ws \<and> bit (ws ! (n div 8)) (n mod 8)"
proof -
  have "(256::int) = 2 ^ LENGTH(8)" by simp
  then show ?thesis
    unfolding uval_def by (simp only: bit_horner_sum_uint_exp_iff) (auto simp add: div_less_iff_less_mult mult.commute)
qed

lemma uval_nonneg: "0 \<le> uval ws"
  unfolding uval_def by (induction ws) simp_all

lemma uval_less: "uval ws < 2 ^ (8 * length ws)"
proof (induction ws)
  case Nil
  show ?case by (simp add: uval_def)
next
  case (Cons w ws)
  have "uint w < 256" using uint_lt2p [of w] by simp
  moreover have "uval ws + 1 \<le> 2 ^ (8 * length ws)" using Cons by simp
  then have "256 * (uval ws + 1) \<le> 256 * 2 ^ (8 * length ws)" by simp
  ultimately show ?case by (simp add: uval_def power_add algebra_simps)
qed

lemma uval_append: "uval (xs @ ys) = uval xs + 2 ^ (8 * length xs) * uval ys"
  unfolding uval_def by (simp add: horner_sum_append power_mult)

lemma uval_replicate_zero: "uval (replicate k 0) = 0"
  unfolding uval_def by (induction k) simp_all

lemma uval_inj:
  assumes "length xs = length ys" and "uval xs = uval ys"
  shows "xs = ys"
proof (rule nth_equalityI)
  show "length xs = length ys" by fact
next
  fix i assume i: "i < length xs"
  show "xs ! i = ys ! i"
  proof (rule bit_word_eqI)
    fix n assume n: "n < LENGTH(8)"
    have "bit (uval xs) (8 * i + n) = bit (uval ys) (8 * i + n)" using assms by simp
    with i n assms(1) show "bit (xs ! i) n = bit (ys ! i) n"
      by (simp add: bit_uval)
  qed
qed

lemma bit_uv: "bit (uv x) i \<longleftrightarrow> i < nbits x \<and> bit_at x i"
  by (simp add: uv_def nbits_def bit_uval bit_at_def kWord_Bits_Cnt_def)

lemma bit_at_uv: "i < nbits x \<Longrightarrow> bit_at x i = bit (uv x) i"
  by (simp add: bit_uv)

lemma uv_nonneg: "0 \<le> uv x"
  by (simp add: uv_def uval_nonneg)

lemma uv_less: "uv x < 2 ^ nbits x"
  by (simp add: uv_def nbits_def uval_less)

lemma take_bit_uv: "nbits x \<le> n \<Longrightarrow> take_bit n (uv x) = uv x"
proof -
  assume "nbits x \<le> n"
  then have "(2::int) ^ nbits x \<le> 2 ^ n" by simp
  with uv_less [of x] have "uv x < 2 ^ n" by linarith
  then show ?thesis by (simp add: take_bit_int_eq_self uv_nonneg)
qed

lemma Integer_eqI:
  fixes x y :: Integer
  assumes "Width x = Width y" and "nbits x = nbits y" and "uv x = uv y"
  shows "x = y"
proof -
  have "length (bits x) = length (bits y)" using assms(2) by (simp add: nbits_def)
  then have "bits x = bits y" using assms(3) by (auto simp: uv_def intro: uval_inj)
  with assms(1) show ?thesis by simp
qed

lemma Width_bit_put [simp]: "Width (bit_put x i b) = Width x"
  by (simp add: bit_put_def Let_def)

lemma nbits_bit_put [simp]: "nbits (bit_put x i b) = nbits x"
  by (simp add: bit_put_def Let_def nbits_def)

lemma length_bit_put [simp]: "length (bits (bit_put x i b)) = length (bits x)"
  by (simp add: bit_put_def Let_def)

lemma bit_uv_bit_put:
  assumes "i < nbits x"
  shows "bit (uv (bit_put x i b)) j \<longleftrightarrow> (if j = i then b else bit (uv x) j)"
proof (cases "j < nbits x")
  case False
  then show ?thesis using assms by (auto simp: bit_uv)
next
  case True
  have ji: "j div 8 = i div 8 \<Longrightarrow> j mod 8 = i mod 8 \<Longrightarrow> j = i"
    by (metis div_mult_mod_eq)
  have l: "j div 8 < length (bits x)" "i div 8 < length (bits x)"
    using True assms by (simp_all add: nbits_def less_mult_imp_div_less mult.commute)
  show ?thesis
  proof (cases "j div 8 = i div 8")
    case False
    then have "j \<noteq> i" by auto
    with False True l show ?thesis
      by (simp add: bit_uv bit_at_def bit_put_def Let_def kWord_Bits_Cnt_def nbits_def)
  next
    case same: True
    show ?thesis
    proof (cases "j mod 8 = i mod 8")
      case True
      with same have "j = i" by (rule ji)
      with \<open>j < nbits x\<close> l show ?thesis
        by (simp add: bit_uv bit_at_def bit_put_def Let_def kWord_Bits_Cnt_def nbits_def
            bit_set_bit_iff bit_unset_bit_iff possible_bit_word)
    next
      case False
      then have "j \<noteq> i" by auto
      with False same \<open>j < nbits x\<close> l show ?thesis
        by (auto simp add: bit_uv bit_at_def bit_put_def Let_def kWord_Bits_Cnt_def nbits_def
            bit_set_bit_iff bit_unset_bit_iff possible_bit_word)
    qed
  qed
qed

lemma fold_bit_put_const:
  assumes "\<forall>i \<in> set idxs. i < nbits x"
  shows "Width (fold (\<lambda>i r. bit_put r i (f i)) idxs x) = Width x \<and>
         nbits (fold (\<lambda>i r. bit_put r i (f i)) idxs x) = nbits x \<and>
         (\<forall>j. bit (uv (fold (\<lambda>i r. bit_put r i (f i)) idxs x)) j \<longleftrightarrow>
              (if j \<in> set idxs then f j else bit (uv x) j))"
  using assms
proof (induction idxs arbitrary: x rule: rev_induct)
  case Nil
  show ?case by simp
next
  case (snoc i idxs)
  let ?r = "fold (\<lambda>i r. bit_put r i (f i)) idxs x"
  have ih: "Width ?r = Width x" "nbits ?r = nbits x"
    "\<And>j. bit (uv ?r) j \<longleftrightarrow> (if j \<in> set idxs then f j else bit (uv x) j)"
    using snoc by simp_all
  have i: "i < nbits ?r" using snoc.prems ih(2) by simp
  show ?case
    by (simp add: ih bit_uv_bit_put [OF i])
qed

subsection \<open>Bit loops\<close>

lemma Width_Integer_new [simp]: "Width (Integer_new w) = w"
  by (simp add: Integer_new_def)

lemma uv_Integer_new [simp]: "uv (Integer_new w) = 0"
  by (simp add: Integer_new_def uv_def uval_replicate_zero)

lemma nbits_Integer_new_Fixed [simp]: "nbits (Integer_new (Fixed n)) = 8 * n"
  by (simp add: Integer_new_def nbits_def)

lemma nbits_Integer_new_Unlimited [simp]: "nbits (Integer_new Unlimited) = 32"
  by (simp add: Integer_new_def nbits_def kWidth_Min_def)

lemma fold_bit_put_cond:
  assumes "\<forall>i \<in> set idxs. i < nbits x"
  shows "Width (fold (\<lambda>i r. if p i then bit_put r i True else r) idxs x) = Width x \<and>
         nbits (fold (\<lambda>i r. if p i then bit_put r i True else r) idxs x) = nbits x \<and>
         (\<forall>j. bit (uv (fold (\<lambda>i r. if p i then bit_put r i True else r) idxs x)) j \<longleftrightarrow>
              (j \<in> set idxs \<and> p j) \<or> bit (uv x) j)"
  using assms
proof (induction idxs arbitrary: x rule: rev_induct)
  case Nil
  show ?case by simp
next
  case (snoc i idxs)
  let ?r = "fold (\<lambda>i r. if p i then bit_put r i True else r) idxs x"
  have ih: "Width ?r = Width x" "nbits ?r = nbits x"
    "\<And>j. bit (uv ?r) j \<longleftrightarrow> (j \<in> set idxs \<and> p j) \<or> bit (uv x) j"
    using snoc by simp_all
  have i: "i < nbits ?r" using snoc.prems ih(2) by simp
  show ?case
    by (auto simp add: ih bit_uv_bit_put [OF i])
qed

lemma Integer_of_bitset_Fixed:
  assumes "length bs = 8 * n"
  shows "Width (Integer_of_bitset (Fixed n) bs) = Fixed n"
    and "nbits (Integer_of_bitset (Fixed n) bs) = 8 * n"
    and "bit (uv (Integer_of_bitset (Fixed n) bs)) j \<longleftrightarrow> j < 8 * n \<and> bs ! j"
proof -
  have "\<forall>i \<in> set [0..<length bs]. i < nbits (Integer_new (Fixed n))"
    using assms by simp
  from fold_bit_put_cond [OF this, of "\<lambda>i. bs ! i"] assms
  show "Width (Integer_of_bitset (Fixed n) bs) = Fixed n"
    and "nbits (Integer_of_bitset (Fixed n) bs) = 8 * n"
    and "bit (uv (Integer_of_bitset (Fixed n) bs)) j \<longleftrightarrow> j < 8 * n \<and> bs ! j"
    by (simp_all add: Integer_of_bitset_def)
qed

lemma length_Get_Bitset [simp]: "length (Get_Bitset n x) = 8 * n"
  by (simp add: Get_Bitset_def kWord_Bits_Cnt_def mult.commute)

lemma nth_Get_Bitset:
  assumes "nbits x = 8 * n" and "j < 8 * n"
  shows "Get_Bitset n x ! j = bit (uv x) j"
  using assms by (simp add: Get_Bitset_def kWord_Bits_Cnt_def mult.commute bit_uv)

text \<open>The ripple-carry loop.\<close>

lemma take_bit_cong_below:
  fixes a b :: int
  assumes "\<And>j. j < k \<Longrightarrow> bit a j = bit b j"
  shows "take_bit k a = take_bit k b"
  by (rule bit_eqI) (auto simp add: bit_take_bit_iff assms)

lemma full_adder:
  "of_bool ((a \<noteq> b) \<noteq> c) + 2 * of_bool ((a \<and> b) \<or> ((a \<noteq> b) \<and> c))
     = (of_bool a + of_bool b + of_bool c :: int)"
  by (cases a; cases b; cases c) simp_all

lemma Add_fold:
  assumes "k \<le> nbits res0" and "k \<le> nbits left" and "k \<le> nbits right"
  shows "case fold (Add_step left right) [0..<k] (res0, False) of (r, c) \<Rightarrow>
           Width r = Width res0 \<and> nbits r = nbits res0 \<and>
           take_bit k (uv r) + of_bool c * 2 ^ k = take_bit k (uv left) + take_bit k (uv right) \<and>
           (\<forall>j\<ge>k. bit (uv r) j = bit (uv res0) j)"
  using assms
proof (induction k)
  case 0
  show ?case by simp
next
  case (Suc k)
  obtain r c where rc: "fold (Add_step left right) [0..<k] (res0, False) = (r, c)"
    by (cases "fold (Add_step left right) [0..<k] (res0, False)")
  from Suc rc have ih: "Width r = Width res0" "nbits r = nbits res0"
    "take_bit k (uv r) + of_bool c * 2 ^ k = take_bit k (uv left) + take_bit k (uv right)"
    "\<And>j. k \<le> j \<Longrightarrow> bit (uv r) j = bit (uv res0) j"
    by auto
  define a where "a = bit (uv left) k"
  define b where "b = bit (uv right) k"
  define s where "s = ((a \<noteq> b) \<noteq> c)"
  define c' where "c' = ((a \<and> b) \<or> ((a \<noteq> b) \<and> c))"
  have k: "k < nbits r" "k < nbits left" "k < nbits right" using Suc.prems ih(2) by simp_all
  have step: "fold (Add_step left right) [0..<Suc k] (res0, False) = (bit_put r k s, c')"
    using k by (simp add: rc Add_step_def bit_at_uv a_def b_def s_def c'_def)
  have low: "take_bit k (uv (bit_put r k s)) = take_bit k (uv r)"
    by (rule take_bit_cong_below) (simp add: bit_uv_bit_put [OF k(1)])
  have "take_bit (Suc k) (uv (bit_put r k s)) + of_bool c' * 2 ^ Suc k
      = 2 ^ k * (of_bool s + 2 * of_bool c') + take_bit k (uv r)"
    by (simp add: take_bit_Suc_from_most low bit_uv_bit_put [OF k(1)] algebra_simps)
  also have "\<dots> = 2 ^ k * (of_bool a + of_bool b + of_bool c) + take_bit k (uv r)"
    unfolding s_def c'_def by (simp only: full_adder)
  also have "\<dots> = take_bit (Suc k) (uv left) + take_bit (Suc k) (uv right)"
    using ih(3) by (simp add: take_bit_Suc_from_most a_def b_def algebra_simps)
  finally have sum: "take_bit (Suc k) (uv (bit_put r k s)) + of_bool c' * 2 ^ Suc k
      = take_bit (Suc k) (uv left) + take_bit (Suc k) (uv right)" .
  have high: "\<forall>j\<ge>Suc k. bit (uv (bit_put r k s)) j = bit (uv res0) j"
    using ih(4) by (simp add: bit_uv_bit_put [OF k(1)])
  show ?case
    unfolding step using sum high ih(1,2) by simp
qed

lemma Add_fold_full:
  assumes "nbits res0 = n" and "nbits left = n" and "nbits right = n" and "uv res0 = 0"
  obtains r c where "fold (Add_step left right) [0..<n] (res0, False) = (r, c)"
    and "Width r = Width res0" and "nbits r = n"
    and "uv r + of_bool c * 2 ^ n = uv left + uv right"
proof -
  obtain r c where rc: "fold (Add_step left right) [0..<n] (res0, False) = (r, c)"
    by (cases "fold (Add_step left right) [0..<n] (res0, False)")
  from Add_fold [of n res0 left right] assms rc
  have *: "Width r = Width res0" "nbits r = n"
    "take_bit n (uv r) + of_bool c * 2 ^ n = take_bit n (uv left) + take_bit n (uv right)"
    by auto
  from * assms show ?thesis
    by (intro that [OF rc]) (simp_all add: take_bit_uv)
qed

subsection \<open>Two's-complement values\<close>

lemma valid_Get_Actual_Width: "valid x \<Longrightarrow> Get_Actual_Width x = length (bits x)"
  by (auto simp: valid_def Get_Actual_Width_def split: width.splits)

lemma valid_length: "valid x \<Longrightarrow> 4 \<le> length (bits x)"
  by (auto simp: valid_def kWidth_Min_def split: width.splits)

lemma valid_nbits: "valid x \<Longrightarrow> 32 \<le> nbits x"
  using valid_length [of x] by (simp add: nbits_def)

lemma valid_Fixed: "valid x \<Longrightarrow> Width x = Fixed n \<Longrightarrow> length (bits x) = n"
  by (simp add: valid_def)

lemma valid_Actual_Bits_Cnt: "valid x \<Longrightarrow> Get_Actual_Bits_Cnt x = nbits x"
  by (simp add: Get_Actual_Bits_Cnt_def valid_Get_Actual_Width nbits_def kWord_Bits_Cnt_def)

lemma top_index_div: "0 < l \<Longrightarrow> (8 * l - 1) div 8 = l - (1::nat)"
  by (cases l) simp_all

lemma top_index_mod: "0 < l \<Longrightarrow> (8 * l - 1) mod 8 = (7::nat)"
  by (cases l) (simp_all add: mod_Suc)

lemma Is_Positive_bit: "valid x \<Longrightarrow> Is_Positive x \<longleftrightarrow> \<not> bit (uv x) (nbits x - 1)"
proof -
  assume w: "valid x"
  let ?l = "length (bits x)"
  have l: "0 < ?l" using valid_length [OF w] by linarith
  have "bit (uv x) (8 * ?l - 1) \<longleftrightarrow> bit (bits x ! ((8 * ?l - 1) div 8)) ((8 * ?l - 1) mod 8)"
    using l unfolding uv_def bit_uval by simp
  then show ?thesis
    unfolding top_index_div [OF l] top_index_mod [OF l] Is_Positive_def valid_Get_Actual_Width [OF w] kWord_Bits_Cnt_def nbits_def
    by simp
qed

lemma top_bit_iff:
  fixes a :: int
  assumes "0 \<le> a" and "a < 2 ^ n" and "0 < n"
  shows "bit a (n - 1) \<longleftrightarrow> 2 ^ (n - 1) \<le> a"
proof -
  obtain m where n: "n = Suc m" using assms(3) by (cases n) auto
  define r where "r = take_bit m a"
  have r: "0 \<le> r" "r < 2 ^ m" by (simp_all add: r_def)
  have "take_bit (Suc m) a = a" using assms n by (simp add: take_bit_int_eq_self)
  moreover have "take_bit (Suc m) a = 2 ^ m * of_bool (bit a m) + r"
    unfolding r_def by (rule take_bit_Suc_from_most)
  ultimately have a: "a = 2 ^ m * of_bool (bit a m) + r" by simp
  show ?thesis
  proof (cases "bit a m")
    case True
    then have "a = 2 ^ m + r" by (subst a) simp
    with r have "2 ^ m \<le> a" by linarith
    with True show ?thesis unfolding n by simp
  next
    case False
    then have "a = r" by (subst a) simp
    with r have "a < 2 ^ m" by linarith
    with False show ?thesis unfolding n by simp
  qed
qed

lemma Is_Positive_uv: "valid x \<Longrightarrow> Is_Positive x \<longleftrightarrow> uv x < 2 ^ (nbits x - 1)"
  using top_bit_iff [of "uv x" "nbits x"] valid_nbits [of x]
  by (auto simp add: Is_Positive_bit uv_nonneg uv_less)

lemma ival_pos: "valid x \<Longrightarrow> Is_Positive x \<Longrightarrow> ival x = uv x"
  by (simp add: ival_def Is_Positive_bit)

lemma ival_neg: "valid x \<Longrightarrow> \<not> Is_Positive x \<Longrightarrow> ival x = uv x - 2 ^ nbits x"
  by (simp add: ival_def Is_Positive_bit)

lemma two_pow_nbits: "valid x \<Longrightarrow> (2::int) ^ nbits x = 2 * 2 ^ (nbits x - 1)"
  using valid_nbits [of x] by (cases "nbits x") simp_all

lemma ival_cases:
  assumes "valid x"
  obtains P where "0 < P" and "(2::int) ^ (nbits x - 1) = P" and "(2::int) ^ nbits x = 2 * P"
    and "0 \<le> uv x" and "uv x < 2 * P"
    and "Is_Positive x \<longleftrightarrow> uv x < P"
    and "ival x = (if uv x < P then uv x else uv x - 2 * P)"
proof -
  define P :: int where "P = 2 ^ (nbits x - 1)"
  have P2: "(2::int) ^ nbits x = 2 * P" unfolding P_def by (rule two_pow_nbits [OF assms])
  have 1: "0 < P" by (simp add: P_def)
  have 2: "uv x < 2 * P" using uv_less [of x] P2 by simp
  have 3: "Is_Positive x \<longleftrightarrow> uv x < P" unfolding P_def by (rule Is_Positive_uv [OF assms])
  have 4: "ival x = (if uv x < P then uv x else uv x - 2 * P)"
  proof (cases "Is_Positive x")
    case True
    with 3 ival_pos [OF assms] show ?thesis by simp
  next
    case False
    with 3 have "\<not> uv x < P" by simp
    moreover have "ival x = uv x - 2 * P" using ival_neg [OF assms False] P2 by simp
    ultimately show ?thesis by simp
  qed
  show ?thesis using that [OF 1 _ P2 uv_nonneg 2 3 4] P_def by blast
qed

lemma Is_Positive_ival: "valid x \<Longrightarrow> Is_Positive x \<longleftrightarrow> 0 \<le> ival x"
  by (erule ival_cases) (auto split: if_splits)

lemma ival_lower: "valid x \<Longrightarrow> - (2 ^ (nbits x - 1)) \<le> ival x"
  by (erule ival_cases) (auto split: if_splits)

lemma ival_upper: "valid x \<Longrightarrow> ival x < 2 ^ (nbits x - 1)"
  by (erule ival_cases) (auto split: if_splits)

lemma uv_ival: "valid x \<Longrightarrow> uv x = ival x mod 2 ^ nbits x"
proof -
  assume w: "valid x"
  have "uv x mod 2 ^ nbits x = uv x" using uv_nonneg [of x] uv_less [of x] by simp
  moreover have "(uv x - 2 ^ nbits x) mod 2 ^ nbits x = uv x mod 2 ^ nbits x"
    by (rule minus_mod_self2)
  ultimately show ?thesis
    by (cases "Is_Positive x") (simp_all add: ival_pos ival_neg w)
qed

lemma ival_eqI:
  assumes "valid x" and "uv x = s mod 2 ^ nbits x"
    and "- (2 ^ (nbits x - 1)) \<le> s" and "s < 2 ^ (nbits x - 1)"
  shows "ival x = s"
proof -
  have "ival x mod 2 ^ nbits x = s mod 2 ^ nbits x"
    using uv_ival [OF assms(1)] assms(2) by simp
  then have "(2::int) ^ nbits x dvd ival x - s"
    by (simp add: mod_eq_dvd_iff)
  then obtain k where "ival x - s = 2 ^ nbits x * k" ..
  then have k: "ival x = s + k * 2 ^ nbits x" by (simp add: algebra_simps)
  define P :: int where "P = 2 ^ (nbits x - 1)"
  have P: "2 ^ nbits x = 2 * P" "0 < P" by (simp_all add: P_def two_pow_nbits assms(1))
  have b: "- P \<le> ival x" "ival x < P" "- P \<le> s" "s < P"
    using ival_lower ival_upper assms by (simp_all add: P_def)
  have "k = 0"
  proof (rule ccontr)
    assume "k \<noteq> 0"
    then consider "1 \<le> k" | "k \<le> - 1" by linarith
    then show False
    proof cases
      case 1
      then have "2 * P \<le> k * (2 * P)" using P(2) by simp
      with b k P show False by simp
    next
      case 2
      then have "k * (2 * P) \<le> - 1 * (2 * P)" using P(2)
        by (intro mult_right_mono) simp_all
      with b k P show False by simp
    qed
  qed
  with k show ?thesis by simp
qed

lemma ival_inj:
  assumes "valid x" and "valid y" and "nbits x = nbits y" and "ival x = ival y"
  shows "uv x = uv y"
  using assms by (simp add: uv_ival)

subsection \<open>Normalization\<close>

lemma valid_nbits_pos: "valid x \<Longrightarrow> 0 < nbits x"
  using valid_nbits [of x] by linarith

lemma ival_alt:
  assumes "0 < nbits x"
  shows "ival x = (if 2 ^ (nbits x - 1) \<le> uv x then uv x - 2 ^ nbits x else uv x)"
  using top_bit_iff [OF uv_nonneg uv_less assms] by (simp add: ival_def)

lemma uval_replicate_ones: "uval (replicate k (- 1)) = 2 ^ (8 * k) - 1"
proof (induction k)
  case 0
  show ?case by (simp add: uval_def)
next
  case (Suc k)
  have "uint (- 1 :: 8 word) = 255"
    by (simp add: unsigned_minus_1_eq_mask mask_eq_exp_minus_1)
  then have "uval (replicate (Suc k) (- 1)) = 255 + 256 * uval (replicate k (- 1))"
    by (simp add: uval_def)
  also have "\<dots> = 2 ^ (8 * Suc k) - 1" unfolding Suc by (simp add: power_add)
  finally show ?case .
qed

lemma pow_le_int: "m \<le> n \<Longrightarrow> (2::int) ^ m \<le> 2 ^ n"
  by simp

lemma pow_split: "m \<le> n \<Longrightarrow> (2::int) ^ n = 2 ^ m * 2 ^ (n - m)"
  by (simp add: power_add [symmetric])

text \<open>Sign extension of a bit string, as a fact about numbers.\<close>

lemma sign_extend_value:
  fixes u :: int
  assumes "0 < n" and "n < m" and "0 \<le> u" and "u < 2 ^ n"
  defines "e \<equiv> (if 2 ^ (n - 1) \<le> u then u + 2 ^ m - 2 ^ n else u)"
  shows "0 \<le> e" and "e < 2 ^ m"
    and "(if 2 ^ (m - 1) \<le> e then e - 2 ^ m else e) = (if 2 ^ (n - 1) \<le> u then u - 2 ^ n else u)"
proof -
  have nm: "(2::int) ^ n \<le> 2 ^ (m - 1)" using assms(2) by (intro pow_le_int) simp
  have m: "(2::int) ^ m = 2 * 2 ^ (m - 1)" using assms(1,2) by (cases m) simp_all
  have n: "(2::int) ^ n = 2 * 2 ^ (n - 1)" using assms(1) by (cases n) simp_all
  define M :: int where "M = 2 ^ (m - 1)"
  define N :: int where "N = 2 ^ (n - 1)"
  have facts: "2 * N \<le> M" "0 < N" "u < 2 * N" "0 \<le> u"
    using nm n assms(3,4) by (simp_all add: M_def N_def)
  have e: "e = (if N \<le> u then u + 2 * M - 2 * N else u)"
    unfolding e_def N_def M_def using m n by simp
  show "0 \<le> e" using facts e by (simp split: if_splits)
  show "e < 2 ^ m" unfolding m M_def [symmetric] using facts e by (simp split: if_splits)
  have F: "(if M \<le> e then e - 2 * M else e) = (if N \<le> u then u - 2 * N else u)"
    using facts e by (simp split: if_splits)
  show "(if 2 ^ (m - 1) \<le> e then e - 2 ^ m else e) = (if 2 ^ (n - 1) \<le> u then u - 2 ^ n else u)"
    unfolding m n by (rule F [unfolded M_def N_def])
qed

lemma Get_Normalized_same:
  assumes "valid x" and "length (bits x) = A"
  shows "Get_Normalized x W A = Inr (convert W x)"
  using assms by (simp add: Get_Normalized_def valid_Get_Actual_Width)

lemma Get_Normalized_longer:
  assumes "valid x" and "length (bits x) < A"
  shows "Get_Normalized x W A =
    Inr \<lparr>Width = W, bits = bits x @ replicate (A - length (bits x))
                                (if Is_Positive x then 0 else NOT 0)\<rparr>"
  using assms by (simp add: Get_Normalized_def valid_Get_Actual_Width Let_def)

lemma Get_Normalized_shorter:
  assumes "valid x" and "A < length (bits x)"
  shows "Get_Normalized x W A = Inl OutOfBounds"
  using assms by (simp add: Get_Normalized_def valid_Get_Actual_Width)

lemma Get_Normalized_ok:
  assumes "valid x" and "length (bits x) \<le> A"
  obtains r where "Get_Normalized x W A = Inr r" and "Width r = W"
    and "length (bits r) = A" and "nbits r = 8 * A" and "ival r = ival x"
proof (cases "length (bits x) = A")
  case True
  have "ival (convert W x) = ival x" by (simp add: ival_def uv_def nbits_def convert_def)
  with True show ?thesis
    by (intro that [of "convert W x"])
      (simp_all add: Get_Normalized_same assms(1) convert_def nbits_def)
next
  case False
  with assms(2) have lt: "length (bits x) < A" by simp
  define k where "k = A - length (bits x)"
  define r where "r = \<lparr>Width = W, bits = bits x @ replicate k (if Is_Positive x then 0 else NOT 0)\<rparr>"
  have g: "Get_Normalized x W A = Inr r"
    unfolding r_def k_def by (rule Get_Normalized_longer [OF assms(1) lt])
  have len: "length (bits r) = A" using lt by (simp add: r_def k_def)
  have nb: "nbits r = 8 * A" using len by (simp add: nbits_def)
  have n0: "0 < nbits x" by (rule valid_nbits_pos [OF assms(1)])
  have nm: "nbits x < nbits r" using lt nb by (simp add: nbits_def)
  have "nbits r = nbits x + 8 * k" using lt len by (simp add: nbits_def k_def)
  then have pw: "(2::int) ^ nbits r = 2 ^ nbits x * 2 ^ (8 * k)"
    by (simp add: power_add)
  have uvr: "uv r = (if 2 ^ (nbits x - 1) \<le> uv x then uv x + 2 ^ nbits r - 2 ^ nbits x else uv x)"
  proof (cases "Is_Positive x")
    case True
    then have "uv r = uv x"
      by (simp add: r_def uv_def uval_append uval_replicate_zero)
    with True Is_Positive_uv [OF assms(1)] show ?thesis by simp
  next
    case False
    then have "uv r = uv x + 2 ^ nbits x * (2 ^ (8 * k) - 1)"
      by (simp add: r_def uv_def uval_append uval_replicate_ones nbits_def)
    also have "\<dots> = uv x + 2 ^ nbits r - 2 ^ nbits x"
      by (simp add: pw algebra_simps)
    finally show ?thesis using False Is_Positive_uv [OF assms(1)] by simp
  qed
  from sign_extend_value(3) [OF n0 nm uv_nonneg uv_less, folded uvr]
  have "ival r = ival x"
    using ival_alt [OF n0] ival_alt [of r] nm by simp
  with g len nb show ?thesis by (intro that [of r]) (simp_all add: r_def)
qed

lemma valid_I:
  assumes "4 \<le> length (bits r)" and "\<And>n. Width r = Fixed n \<Longrightarrow> length (bits r) = n"
  shows "valid r"
  using assms by (cases "Width r") (simp_all add: valid_def kWidth_Min_def)

lemma Get_Max_Unlimited_iff:
  "Get_Max a b = Unlimited \<longleftrightarrow> a = Unlimited \<or> b = Unlimited"
  by (cases a; cases b) simp_all

lemma Get_Max_Fixed:
  "Get_Max a b = Fixed n \<Longrightarrow> \<exists>p q. a = Fixed p \<and> b = Fixed q \<and> n = max p q"
  by (cases a; cases b) simp_all

lemma valid_Get_Max_length:
  assumes "valid x" and "valid y" and "Get_Max (Width x) (Width y) = Fixed n"
  shows "max (length (bits x)) (length (bits y)) = n"
  using Get_Max_Fixed [OF assms(3)] assms(1,2) by (auto simp: valid_def)

subsection \<open>Signed addition\<close>

lemma add_signed_core:
  fixes a b r P :: int and c :: bool
  assumes "0 < P" and "0 \<le> a" and "a < 2 * P" and "0 \<le> b" and "b < 2 * P"
    and "0 \<le> r" and "r < 2 * P" and "r + of_bool c * (2 * P) = a + b"
  defines "sa \<equiv> (if a < P then a else a - 2 * P)"
    and "sb \<equiv> (if b < P then b else b - 2 * P)"
  shows "(a < P \<and> b < P \<and> \<not> r < P) \<or> (\<not> a < P \<and> \<not> b < P \<and> r < P)
          \<longleftrightarrow> \<not> (- P \<le> sa + sb \<and> sa + sb < P)"
    and "- P \<le> sa + sb \<and> sa + sb < P \<Longrightarrow> (if r < P then r else r - 2 * P) = sa + sb"
    and "a < P \<Longrightarrow> b < P \<Longrightarrow> r = sa + sb"
    and "\<not> a < P \<Longrightarrow> \<not> b < P \<Longrightarrow> r - 2 * P = sa + sb"
proof -
  have r: "r = a + b - of_bool c * (2 * P)" using assms(8) by simp
  show "(a < P \<and> b < P \<and> \<not> r < P) \<or> (\<not> a < P \<and> \<not> b < P \<and> r < P)
          \<longleftrightarrow> \<not> (- P \<le> sa + sb \<and> sa + sb < P)"
    using assms(1-7) unfolding sa_def sb_def r by (cases c) (auto split: if_splits)
  show "- P \<le> sa + sb \<and> sa + sb < P \<Longrightarrow> (if r < P then r else r - 2 * P) = sa + sb"
    using assms(1-7) unfolding sa_def sb_def r by (cases c) (auto split: if_splits)
  show "a < P \<Longrightarrow> b < P \<Longrightarrow> r = sa + sb"
    using assms(1-7) unfolding sa_def sb_def r by (cases c) (auto split: if_splits)
  show "\<not> a < P \<Longrightarrow> \<not> b < P \<Longrightarrow> r - 2 * P = sa + sb"
    using assms(1-7) unfolding sa_def sb_def r by (cases c) (auto split: if_splits)
qed

lemma valid_Integer_new: "4 \<le> n \<Longrightarrow> valid (Integer_new (Fixed n))"
  and valid_Integer_new_Unlimited: "valid (Integer_new Unlimited)"
  by (simp_all add: valid_def Integer_new_def kWidth_Min_def)

lemma length_Integer_new_Fixed [simp]: "length (bits (Integer_new (Fixed n))) = n"
  and length_Integer_new_Unlimited [simp]: "length (bits (Integer_new Unlimited)) = 4"
  by (simp_all add: Integer_new_def kWidth_Min_def)

lemma ival_Integer_new [simp]: "ival (Integer_new w) = 0"
  by (simp add: ival_def)

lemma uv_zero_of_ival: "valid x \<Longrightarrow> ival x = 0 \<Longrightarrow> uv x = 0"
  by (simp add: uv_ival)

lemma uval_single [simp]: "uval [w] = uint w"
  by (simp add: uval_def)

lemma grow_zero:
  assumes "valid x" and "Width x = Unlimited"
  defines "g \<equiv> x\<lparr>bits := bits x @ [0]\<rparr>"
  shows "valid g" and "Width g = Unlimited" and "length (bits g) = length (bits x) + 1"
    and "uv g = uv x" and "ival g = uv x"
proof -
  show 1: "valid g" "Width g = Unlimited" "length (bits g) = length (bits x) + 1"
    using assms(1,2) by (simp_all add: g_def valid_def)
  show 2: "uv g = uv x" by (simp add: g_def uv_def uval_append)
  have nb: "nbits g = nbits x + 8" by (simp add: g_def nbits_def)
  have "uv x < 2 ^ nbits x" by (rule uv_less)
  also have "(2::int) ^ nbits x \<le> 2 ^ (nbits g - 1)" unfolding nb by (intro pow_le_int) simp
  finally have "\<not> 2 ^ (nbits g - 1) \<le> uv g" using 2 by simp
  then show "ival g = uv x" using ival_alt [of g] nb 2 by simp
qed

lemma grow_ones:
  assumes "valid x" and "Width x = Unlimited"
  defines "g \<equiv> x\<lparr>bits := bits x @ [NOT 0]\<rparr>"
  shows "valid g" and "Width g = Unlimited" and "length (bits g) = length (bits x) + 1"
    and "uv g = uv x + 255 * 2 ^ nbits x" and "ival g = uv x - 2 ^ nbits x"
proof -
  show 1: "valid g" "Width g = Unlimited" "length (bits g) = length (bits x) + 1"
    using assms(1,2) by (simp_all add: g_def valid_def)
  have "uint (- 1 :: 8 word) = 255"
    by (simp add: unsigned_minus_1_eq_mask mask_eq_exp_minus_1)
  then show 2: "uv g = uv x + 255 * 2 ^ nbits x"
    by (simp add: g_def uv_def uval_append nbits_def)
  have nb: "nbits g = nbits x + 8" by (simp add: g_def nbits_def)
  define N :: int where "N = 2 ^ nbits x"
  have p: "(2::int) ^ nbits g = 256 * N" "(2::int) ^ (nbits g - 1) = 128 * N"
    unfolding nb N_def by (simp_all add: power_add)
  have "0 \<le> uv x" "0 < N" by (simp_all add: uv_nonneg N_def)
  then have "128 * N \<le> uv x + 255 * N" by linarith
  then have "ival g = uv x + 255 * N - 256 * N"
    using ival_alt [of g] nb 2 p by (simp add: N_def)
  then show "ival g = uv x - 2 ^ nbits x" by (simp add: N_def)
qed

subsection \<open>The add kernel\<close>

lemma length_of_nbits: "nbits x = 8 * A \<Longrightarrow> length (bits x) = A"
  by (simp add: nbits_def)

lemma valid_sign:
  assumes "valid x" and "nbits x = 8 * A"
  defines "P \<equiv> (2::int) ^ (8 * A - 1)"
  shows "Is_Positive x \<longleftrightarrow> uv x < P"
    and "ival x = (if uv x < P then uv x else uv x - 2 * P)"
    and "0 \<le> uv x" and "uv x < 2 * P" and "0 < P" and "(2::int) ^ (8 * A) = 2 * P"
proof -
  from ival_cases [OF assms(1)] obtain Q where Q: "0 < Q" "(2::int) ^ (nbits x - 1) = Q"
    "(2::int) ^ nbits x = 2 * Q" "0 \<le> uv x" "uv x < 2 * Q" "Is_Positive x \<longleftrightarrow> uv x < Q"
    "ival x = (if uv x < Q then uv x else uv x - 2 * Q)" by blast
  have PQ: "P = Q" using Q(2) assms(2) by (simp add: P_def)
  show "Is_Positive x \<longleftrightarrow> uv x < P" "ival x = (if uv x < P then uv x else uv x - 2 * P)"
    "0 \<le> uv x" "uv x < 2 * P" "0 < P" "(2::int) ^ (8 * A) = 2 * P"
    using Q assms(2) unfolding PQ by simp_all
qed

lemma Add_spec:
  assumes vl: "valid l" and vr: "valid r"
  defines "A \<equiv> max (length (bits l)) (length (bits r))"
    and "W \<equiv> Get_Max (Width l) (Width r)"
    and "s \<equiv> ival l + ival r"
  obtains res ov c where "Add l r = Inr (res, ov, c)"
    and "valid res" and "Width res = W"
    and "fits A s \<Longrightarrow> length (bits res) = A \<and> ival res = s \<and> \<not> ov"
    and "W = Unlimited \<Longrightarrow>
           ival res = s \<and> \<not> ov \<and> length (bits res) = (if fits A s then A else A + 1)"
    and "W \<noteq> Unlimited \<Longrightarrow>
           length (bits res) = A \<and> uv res = s mod 2 ^ (8 * A) \<and> (ov \<longleftrightarrow> \<not> fits A s)"
    and "c \<longleftrightarrow> 2 ^ (8 * A) \<le> ival l mod 2 ^ (8 * A) + ival r mod 2 ^ (8 * A)"
proof -
  have A4: "4 \<le> A" using valid_length [OF vl] by (simp add: A_def)
  have WA: "\<And>n. W = Fixed n \<Longrightarrow> A = n"
    unfolding W_def A_def by (rule valid_Get_Max_length [OF vl vr])
  have lA: "length (bits l) \<le> A" "length (bits r) \<le> A" by (simp_all add: A_def)
  from Get_Normalized_ok [OF vl lA(1), of W] obtain left where
    left: "Get_Normalized l W A = Inr left" "Width left = W" "length (bits left) = A"
      "nbits left = 8 * A" "ival left = ival l" by blast
  from Get_Normalized_ok [OF vr lA(2), of W] obtain right where
    right: "Get_Normalized r W A = Inr right" "Width right = W" "length (bits right) = A"
      "nbits right = 8 * A" "ival right = ival r" by blast
  have vleft: "valid left" using left A4 WA by (intro valid_I) simp_all
  have vright: "valid right" using right A4 WA by (intro valid_I) simp_all
  obtain res0 where res0:
    "(if Is_Unlimited W then Get_Normalized_Existing (Integer_new W) W A
      else Inr (Integer_new W)) = Inr res0"
    "Width res0 = W" "nbits res0 = 8 * A" "uv res0 = 0"
  proof (cases W)
    case Unlimited
    from Get_Normalized_ok [OF valid_Integer_new_Unlimited, of A Unlimited] A4
    obtain z where z: "Get_Normalized (Integer_new Unlimited) Unlimited A = Inr z"
      "Width z = Unlimited" "length (bits z) = A" "nbits z = 8 * A" "ival z = 0"
      by auto
    have "valid z" using z A4 by (intro valid_I) simp_all
    then have "uv z = 0" using z(5) by (rule uv_zero_of_ival)
    with z Unlimited show ?thesis
      by (intro that [of z]) (simp_all add: Is_Unlimited_def Get_Normalized_Existing_def)
  next
    case (Fixed n)
    with WA have "A = n" by simp
    with Fixed show ?thesis
      by (intro that [of "Integer_new W"]) (simp_all add: Is_Unlimited_def)
  qed
  from Add_fold_full [OF res0(3) left(4) right(4) res0(4)] obtain r1 c where
    r1: "fold (Add_step left right) [0..<8 * A] (res0, False) = (r1, c)"
      "Width r1 = Width res0" "nbits r1 = 8 * A"
      "uv r1 + of_bool c * 2 ^ (8 * A) = uv left + uv right" by blast
  have len1: "length (bits r1) = A" using r1(3) by (rule length_of_nbits)
  have v1: "valid r1" using r1(2) res0(2) len1 A4 WA by (intro valid_I) simp_all
  define P :: int where "P = 2 ^ (8 * A - 1)"
  note sl = valid_sign [OF vleft left(4), folded P_def]
  note sr = valid_sign [OF vright right(4), folded P_def]
  note s1 = valid_sign [OF v1 r1(3), folded P_def]
  have sum: "uv r1 + of_bool c * (2 * P) = uv left + uv right"
    using r1(4) sl(6) by simp
  note core = add_signed_core [OF sl(5) sl(3) sl(4) sr(3) sr(4) s1(3) s1(4) sum]
  have s_eq: "s = (if uv left < P then uv left else uv left - 2 * P) +
                  (if uv right < P then uv right else uv right - 2 * P)"
    using sl(2) sr(2) left(5) right(5) by (simp add: s_def)
  have fits_eq: "\<And>t. fits A t \<longleftrightarrow> - P \<le> t \<and> t < P" by (simp add: fits_def P_def)
  have ovc: "(Is_Positive left \<and> Is_Positive right \<and> \<not> Is_Positive r1) \<or>
             (\<not> Is_Positive left \<and> \<not> Is_Positive right \<and> Is_Positive r1) \<longleftrightarrow> \<not> fits A s"
    unfolding fits_eq s_eq sl(1) sr(1) s1(1) by (rule core(1))
  have iv1: "fits A s \<Longrightarrow> ival r1 = s"
    unfolding fits_eq s_eq s1(2) by (rule core(2))
  have bc: "Get_Actual_Bits_Cnt left = 8 * A"
    using valid_Actual_Bits_Cnt [OF vleft] left(4) by simp
  have carry: "c \<longleftrightarrow> 2 ^ (8 * A) \<le> ival l mod 2 ^ (8 * A) + ival r mod 2 ^ (8 * A)"
  proof -
    have "uv left = ival l mod 2 ^ (8 * A)" "uv right = ival r mod 2 ^ (8 * A)"
      using uv_ival [OF vleft] uv_ival [OF vright] left(4,5) right(4,5) by simp_all
    moreover have "c \<longleftrightarrow> 2 * P \<le> uv left + uv right"
      using sum s1(3,4) sl(5) by (cases c) simp_all
    ultimately show ?thesis using sl(6) by simp
  qed
  have uvmod: "uv r1 = s mod 2 ^ (8 * A)"
  proof -
    have "uv r1 mod (2 * P) = uv r1" using s1(3,4) by simp
    moreover have "(uv left + uv right) mod (2 * P) = uv r1 mod (2 * P)"
      unfolding sum [symmetric] by (cases c) simp_all
    moreover have "s mod (2 * P) = (uv left + uv right) mod (2 * P)"
    proof -
      have "\<exists>k. s = uv left + uv right + k * (2 * P)"
        unfolding s_eq
        by (cases "uv left < P"; cases "uv right < P")
          (auto intro: exI [of _ 0] exI [of _ "- 1"] exI [of _ "- 2"])
      then obtain k where "s = uv left + uv right + k * (2 * P)" ..
      then show ?thesis by simp
    qed
    ultimately show ?thesis using sl(6) by simp
  qed
  let ?res = "(if Is_Positive left \<and> Is_Positive right \<and> \<not> Is_Positive r1
               then r1\<lparr>bits := bits r1 @ [0]\<rparr>
               else if \<not> Is_Positive left \<and> \<not> Is_Positive right \<and> Is_Positive r1
               then r1\<lparr>bits := bits r1 @ [NOT 0]\<rparr>
               else r1)"
  have nl: "Get_Normalized_Existing l W A = Inr left" "Get_Normalized_Existing r W A = Inr right"
    by (simp_all add: Get_Normalized_Existing_def left(1) right(1))
  have E0: "Add l r =
    Inr (if Is_Unlimited W then ?res else r1,
         Is_Limited W \<and>
           ((Is_Positive left \<and> Is_Positive right \<and>
               \<not> Is_Positive (if Is_Unlimited W then ?res else r1)) \<or>
            (\<not> Is_Positive left \<and> \<not> Is_Positive right \<and>
               Is_Positive (if Is_Unlimited W then ?res else r1))), c)"
    unfolding Add_def Let_def valid_Get_Actual_Width [OF vl] valid_Get_Actual_Width [OF vr]
      W_def [symmetric] A_def [symmetric] nl res0(1)
    by (simp add: bc r1(1))
  show ?thesis
  proof (cases W)
    case (Fixed n)
    have E: "Add l r = Inr (r1, \<not> fits A s, c)"
      unfolding E0 using Fixed ovc by (simp add: Is_Unlimited_def Is_Limited_def)
    show ?thesis
      using Fixed iv1 len1 uvmod v1 r1(2) res0(2) carry
      by (intro that [OF E]) simp_all
  next
    case Unlimited
    have W1: "Width r1 = Unlimited" using r1(2) res0(2) Unlimited by simp
    have E: "Add l r = Inr (?res, False, c)"
      unfolding E0 using Unlimited by (simp add: Is_Unlimited_def Is_Limited_def)
    have R: "valid ?res \<and> Width ?res = Unlimited \<and> ival ?res = s \<and>
             length (bits ?res) = (if fits A s then A else A + 1)"
    proof (cases "Is_Positive left \<and> Is_Positive right \<and> \<not> Is_Positive r1")
      case True
      then have nf: "\<not> fits A s" using ovc by simp
      from True have "uv r1 = s"
        unfolding s_eq using core(3) sl(1) sr(1) by simp
      with True nf grow_zero [OF v1 W1] len1 show ?thesis by simp
    next
      case nz: False
      show ?thesis
      proof (cases "\<not> Is_Positive left \<and> \<not> Is_Positive right \<and> Is_Positive r1")
        case True
        then have nf: "\<not> fits A s" using ovc by simp
        from True have "uv r1 - 2 * P = s"
          unfolding s_eq using core(4) sl(1) sr(1) by simp
        then have "uv r1 - 2 ^ nbits r1 = s" using r1(3) sl(6) by simp
        with True nz nf grow_ones [OF v1 W1] len1 show ?thesis by simp
      next
        case False
        with nz ovc have f: "fits A s" by blast
        with nz False iv1 v1 W1 len1 show ?thesis by simp
      qed
    qed
    show ?thesis
      using Unlimited R carry
      by (intro that [OF E]) simp_all
  qed
qed

subsection \<open>Constants and inverse\<close>

lemma uv_bit_put_True:
  assumes "i < nbits x"
  shows "uv (bit_put x i True) = set_bit i (uv x)"
  by (rule bit_eqI) (auto simp add: bit_uv_bit_put [OF assms] bit_set_bit_iff)

lemma uv_bit_put_False:
  assumes "i < nbits x"
  shows "uv (bit_put x i False) = unset_bit i (uv x)"
  by (rule bit_eqI) (auto simp add: bit_uv_bit_put [OF assms] bit_unset_bit_iff)

lemma nbits_Integer_new_ge:
  assumes "valid (Integer_new w)"
  shows "32 \<le> nbits (Integer_new w)"
  by (rule valid_nbits [OF assms])

lemma valid_bit_put [simp]: "valid (bit_put x i b) = valid x"
  by (cases "Width x") (simp_all add: valid_def)

lemma valid_Integer_new_iff: "valid (Integer_new w) \<longleftrightarrow> (case w of Fixed n \<Rightarrow> 4 \<le> n | Unlimited \<Rightarrow> True)"
  by (cases w) (simp_all add: valid_def Integer_new_def kWidth_Min_def)

lemma valid_width_Integer_new: "valid_width w \<Longrightarrow> valid (Integer_new w)"
  by (cases w) (simp_all add: valid_def Integer_new_def valid_width_def)

lemma valid_valid_width: "valid x \<Longrightarrow> valid_width (Width x)"
  by (cases "Width x") (simp_all add: valid_def valid_width_def)

lemma ival_small:
  assumes "valid x" and "0 \<le> uv x" and "uv x < 2 ^ 31"
  shows "ival x = uv x"
proof -
  have "(2::int) ^ 31 \<le> 2 ^ (nbits x - 1)"
    using valid_nbits [OF assms(1)] by (intro pow_le_int) simp
  with assms(3) have "\<not> 2 ^ (nbits x - 1) \<le> uv x" by linarith
  then show ?thesis using ival_alt [OF valid_nbits_pos [OF assms(1)]] by simp
qed

lemma const_props:
  assumes "valid_width w"
  shows "valid (kZero w)" "Width (kZero w) = w" "ival (kZero w) = 0" "uv (kZero w) = 0"
    and "valid (kOne w)" "Width (kOne w) = w" "ival (kOne w) = 1" "uv (kOne w) = 1"
    and "valid (kTwo w)" "Width (kTwo w) = w" "ival (kTwo w) = 2" "uv (kTwo w) = 2"
    and "valid (kTen w)" "Width (kTen w) = w" "ival (kTen w) = 10" "uv (kTen w) = 10"
proof -
  note v = valid_width_Integer_new [OF assms]
  have n: "0 < nbits (Integer_new w)" "1 < nbits (Integer_new w)" "3 < nbits (Integer_new w)"
    using valid_nbits [OF v] by simp_all
  show z: "valid (kZero w)" "Width (kZero w) = w" "ival (kZero w) = 0" "uv (kZero w) = 0"
    using v by (simp_all add: kZero_def)
  have u1: "uv (kOne w) = set_bit 0 (uv (Integer_new w))"
    unfolding kOne_def by (rule uv_bit_put_True [OF n(1)])
  have u2: "uv (kTwo w) = set_bit 1 (uv (Integer_new w))"
    unfolding kTwo_def by (rule uv_bit_put_True [OF n(2)])
  have n3: "3 < nbits (bit_put (Integer_new w) 1 True)" using n(3) by simp
  have u10: "uv (kTen w) = set_bit 3 (set_bit 1 (uv (Integer_new w)))"
    unfolding kTen_def uv_bit_put_True [OF n3] uv_bit_put_True [OF n(2)] ..
  have sb: "set_bit 0 (0::int) = 1" "set_bit 1 (0::int) = 2" "set_bit 3 (2::int) = 10"
    by (simp_all add: set_bit_eq bit_iff_odd)
  show 1: "valid (kOne w)" "Width (kOne w) = w" "uv (kOne w) = 1"
    using v by (simp_all add: kOne_def u1 [unfolded kOne_def] sb)
  show 2: "valid (kTwo w)" "Width (kTwo w) = w" "uv (kTwo w) = 2"
    using v u2 by (simp_all add: kTwo_def sb)
  show 10: "valid (kTen w)" "Width (kTen w) = w" "uv (kTen w) = 10"
    using v u10 by (simp_all add: kTen_def sb)
  show "ival (kOne w) = 1" "ival (kTwo w) = 2" "ival (kTen w) = 10"
    using ival_small [OF 1(1)] ival_small [OF 2(1)] ival_small [OF 10(1)] 1(3) 2(3) 10(3)
    by simp_all
qed

lemma length_const:
  "length (bits (kZero w)) = length (bits (Integer_new w))"
  "length (bits (kOne w)) = length (bits (Integer_new w))"
  "length (bits (kTwo w)) = length (bits (Integer_new w))"
  "length (bits (kTen w)) = length (bits (Integer_new w))"
  by (simp_all add: kZero_def kOne_def kTwo_def kTen_def)

lemma length_const_le:
  assumes "valid x"
  shows "length (bits (Integer_new (Width x))) \<le> length (bits x)"
  using assms by (cases "Width x") (simp_all add: valid_def kWidth_Min_def)

text \<open>Bitwise inverse.\<close>

lemma Get_Inverse_bits:
  assumes "valid x"
  shows "Width (Get_Inverse x) = Width x" and "nbits (Get_Inverse x) = nbits x"
    and "bit (uv (Get_Inverse x)) j \<longleftrightarrow> j < nbits x \<and> \<not> bit (uv x) j"
proof -
  have "Width (Get_Inverse x) = Width x \<and> nbits (Get_Inverse x) = nbits x \<and>
        (\<forall>j. bit (uv (Get_Inverse x)) j \<longleftrightarrow> j < nbits x \<and> \<not> bit (uv x) j)"
  proof (cases "Width x")
    case (Fixed n)
    have nb: "nbits x = 8 * n" using valid_Fixed [OF assms Fixed] by (simp add: nbits_def)
    have l: "length (bitset_flip (Get_Bitset n x)) = 8 * n" by (simp add: bitset_flip_def)
    have g: "Get_Inverse x = Integer_of_bitset (Fixed n) (bitset_flip (Get_Bitset n x))"
      by (simp add: Get_Inverse_def Fixed)
    have "\<And>j. j < 8 * n \<Longrightarrow> bitset_flip (Get_Bitset n x) ! j = (\<not> bit (uv x) j)"
      by (simp add: bitset_flip_def nth_Get_Bitset [OF nb])
    then show ?thesis
      unfolding g using Integer_of_bitset_Fixed [OF l] Fixed nb by auto
  next
    case Unlimited
    have g: "Get_Inverse x = fold (\<lambda>i r. bit_put r i (\<not> bit_at x i)) [0..<nbits x] x"
      by (simp add: Get_Inverse_def Unlimited valid_Actual_Bits_Cnt [OF assms])
    have "\<forall>i\<in>set [0..<nbits x]. i < nbits x" by simp
    from fold_bit_put_const [OF this, of "\<lambda>i. \<not> bit_at x i"]
    have f: "Width (Get_Inverse x) = Width x" "nbits (Get_Inverse x) = nbits x"
      "\<And>j. bit (uv (Get_Inverse x)) j \<longleftrightarrow>
             (if j \<in> set [0..<nbits x] then \<not> bit_at x j else bit (uv x) j)"
      unfolding g by blast+
    have "\<And>j. (if j \<in> set [0..<nbits x] then \<not> bit_at x j else bit (uv x) j)
                 \<longleftrightarrow> j < nbits x \<and> \<not> bit (uv x) j"
      by (simp add: bit_uv)
    with f show ?thesis by simp
  qed
  then show "Width (Get_Inverse x) = Width x" and "nbits (Get_Inverse x) = nbits x"
    and "bit (uv (Get_Inverse x)) j \<longleftrightarrow> j < nbits x \<and> \<not> bit (uv x) j"
    by simp_all
qed

lemma Get_Inverse_spec:
  assumes "valid x"
  shows "valid (Get_Inverse x)" and "Width (Get_Inverse x) = Width x"
    and "length (bits (Get_Inverse x)) = length (bits x)"
    and "uv (Get_Inverse x) = 2 ^ nbits x - 1 - uv x"
    and "ival (Get_Inverse x) = - 1 - ival x"
proof -
  note b = Get_Inverse_bits [OF assms]
  show w: "Width (Get_Inverse x) = Width x" by (rule b(1))
  show l: "length (bits (Get_Inverse x)) = length (bits x)"
    using b(2) by (simp add: nbits_def)
  show v: "valid (Get_Inverse x)" unfolding valid_def w l using assms [unfolded valid_def] .
  have "uv (Get_Inverse x) = take_bit (nbits x) (NOT (uv x))"
    by (rule bit_eqI) (simp add: b(3) bit_take_bit_iff bit_not_int_iff)
  also have "\<dots> = mask (nbits x) - take_bit (nbits x) (uv x)"
    by (rule take_bit_not_eq_mask_diff)
  also have "\<dots> = 2 ^ nbits x - 1 - uv x"
    by (simp add: mask_eq_exp_minus_1 take_bit_uv)
  finally show u: "uv (Get_Inverse x) = 2 ^ nbits x - 1 - uv x" .
  from ival_cases [OF assms] obtain P where P: "0 < P" "(2::int) ^ nbits x = 2 * P"
    "0 \<le> uv x" "uv x < 2 * P" "ival x = (if uv x < P then uv x else uv x - 2 * P)"
    and P1: "(2::int) ^ (nbits x - 1) = P"
    by blast
  from ival_cases [OF v] obtain Q where Q: "(2::int) ^ (nbits (Get_Inverse x) - 1) = Q"
    "ival (Get_Inverse x) = (if uv (Get_Inverse x) < Q then uv (Get_Inverse x)
                              else uv (Get_Inverse x) - 2 * Q)"
    by blast
  have QP: "Q = P" using Q(1) P1 b(2) by simp
  show "ival (Get_Inverse x) = - 1 - ival x"
    unfolding Q(2) QP u P(2) P(5) using P(1,3,4) by (auto split: if_splits)
qed

subsection \<open>Equality and complement\<close>

lemma Get_Max_same [simp]: "Get_Max w w = w"
  by (cases w) simp_all

lemma uv_eq_iff_bits:
  assumes "nbits a = N" and "nbits b = N"
  shows "uv a = uv b \<longleftrightarrow> (\<forall>j<N. bit (uv a) j = bit (uv b) j)"
proof
  assume "\<forall>j<N. bit (uv a) j = bit (uv b) j"
  then show "uv a = uv b"
    using assms by (intro bit_eqI) (metis bit_uv)
qed simp

lemma Get_Bitset_eq_iff:
  assumes "nbits a = 8 * n" and "nbits b = 8 * n"
  shows "Get_Bitset n a = Get_Bitset n b \<longleftrightarrow> uv a = uv b"
  unfolding uv_eq_iff_bits [OF assms] list_eq_iff_nth_eq
  using assms by (simp add: nth_Get_Bitset)

lemma bits_all_eq_iff:
  assumes "nbits a = N" and "nbits b = N"
  shows "list_all (\<lambda>i. bit_at a i = bit_at b i) [0..<N] \<longleftrightarrow> uv a = uv b"
  unfolding uv_eq_iff_bits [OF assms] list_all_iff
  using assms by (auto simp add: bit_at_uv)

lemma ival_eq_iff_uv:
  assumes "valid a" and "valid b" and "nbits a = nbits b"
  shows "ival a = ival b \<longleftrightarrow> uv a = uv b"
  using assms ival_inj [OF assms(1,2,3)] by (auto simp add: ival_def)

lemma op_eq_spec:
  assumes vx: "valid x" and vy: "valid y"
  shows "op_eq x y = Inr (ival x = ival y)"
proof (cases "Is_Positive x \<noteq> Is_Positive y")
  case True
  then have "ival x \<noteq> ival y"
    using Is_Positive_ival [OF vx] Is_Positive_ival [OF vy] by auto
  with True show ?thesis by (simp add: op_eq_def)
next
  case False
  define A where "A = max (length (bits x)) (length (bits y))"
  define W where "W = Get_Max (Width x) (Width y)"
  have A4: "4 \<le> A" using valid_length [OF vx] by (simp add: A_def)
  have WA: "\<And>n. W = Fixed n \<Longrightarrow> A = n"
    unfolding W_def A_def by (rule valid_Get_Max_length [OF vx vy])
  have lA: "length (bits x) \<le> A" "length (bits y) \<le> A" by (simp_all add: A_def)
  from Get_Normalized_ok [OF vx lA(1), of W] obtain left where
    left: "Get_Normalized x W A = Inr left" "Width left = W" "length (bits left) = A"
      "nbits left = 8 * A" "ival left = ival x" by blast
  from Get_Normalized_ok [OF vy lA(2), of W] obtain right where
    right: "Get_Normalized y W A = Inr right" "Width right = W" "length (bits right) = A"
      "nbits right = 8 * A" "ival right = ival y" by blast
  have vleft: "valid left" using left A4 WA by (intro valid_I) simp_all
  have vright: "valid right" using right A4 WA by (intro valid_I) simp_all
  have iv: "ival x = ival y \<longleftrightarrow> uv left = uv right"
    using ival_eq_iff_uv [OF vleft vright] left(4,5) right(4,5) by simp
  have nl: "Get_Normalized_Existing x W A = Inr left" "Get_Normalized_Existing y W A = Inr right"
    by (simp_all add: Get_Normalized_Existing_def left(1) right(1))
  have E: "op_eq x y = (case W of
             Fixed n \<Rightarrow> Inr (Get_Bitset n left = Get_Bitset n right)
           | Unlimited \<Rightarrow> Inr (list_all (\<lambda>i. bit_at left i = bit_at right i)
                                  [0..<Get_Actual_Bits_Cnt left]))"
    using False
    unfolding op_eq_def Let_def valid_Get_Actual_Width [OF vx] valid_Get_Actual_Width [OF vy]
      W_def [symmetric] A_def [symmetric] nl
    by simp
  show ?thesis
  proof (cases W)
    case (Fixed n)
    with WA have "A = n" by simp
    with Fixed show ?thesis
      unfolding E iv using Get_Bitset_eq_iff [of left n right] left(4) right(4) by simp
  next
    case Unlimited
    have "Get_Actual_Bits_Cnt left = 8 * A"
      using valid_Actual_Bits_Cnt [OF vleft] left(4) by simp
    with Unlimited show ?thesis
      unfolding E iv using bits_all_eq_iff [OF left(4) right(4)] by simp
  qed
qed

lemma op_neq_spec:
  assumes "valid x" and "valid y"
  shows "op_neq x y = Inr (ival x \<noteq> ival y)"
  by (simp add: op_neq_def op_eq_spec [OF assms])

lemma fits_ival: "valid x \<Longrightarrow> fits (length (bits x)) (ival x)"
  using ival_lower [of x] ival_upper [of x] by (simp add: fits_def nbits_def)

lemma fits_neg_iff:
  assumes "valid x"
  shows "fits (length (bits x)) (- ival x) \<longleftrightarrow> ival x \<noteq> - (2 ^ (nbits x - 1))"
  using ival_lower [OF assms] ival_upper [OF assms] by (auto simp add: fits_def nbits_def)

lemma Get_Complement_spec:
  assumes vx: "valid x"
  obtains res where "Get_Complement x = Inr res" and "valid res" and "Width res = Width x"
    and "ival x \<noteq> - (2 ^ (nbits x - 1)) \<Longrightarrow>
           length (bits res) = length (bits x) \<and> ival res = - ival x"
    and "Width x = Unlimited \<Longrightarrow> ival res = - ival x \<and>
           length (bits res) = (if ival x = - (2 ^ (nbits x - 1)) then length (bits x) + 1
                                else length (bits x))"
    and "Width x \<noteq> Unlimited \<Longrightarrow>
           length (bits res) = length (bits x) \<and> uv res = (- ival x) mod 2 ^ nbits x"
proof -
  note inv = Get_Inverse_spec [OF vx]
  note k = const_props(5-8) [OF valid_valid_width [OF vx]]
  have A: "max (length (bits (Get_Inverse x))) (length (bits (kOne (Width x)))) = length (bits x)"
    using length_const_le [OF vx] by (simp add: inv(3) length_const)
  have W: "Get_Max (Width (Get_Inverse x)) (Width (kOne (Width x))) = Width x"
    by (simp add: inv(2) k(2))
  have s: "ival (Get_Inverse x) + ival (kOne (Width x)) = - ival x"
    by (simp add: inv(5) k(3))
  from Add_spec [OF inv(1) k(1), unfolded A W s] obtain res ov c where
    r: "Add (Get_Inverse x) (kOne (Width x)) = Inr (res, ov, c)"
      "valid res" "Width res = Width x"
      "fits (length (bits x)) (- ival x) \<Longrightarrow>
         length (bits res) = length (bits x) \<and> ival res = - ival x \<and> \<not> ov"
      "Width x = Unlimited \<Longrightarrow> ival res = - ival x \<and> \<not> ov \<and>
         length (bits res) = (if fits (length (bits x)) (- ival x) then length (bits x)
                              else length (bits x) + 1)"
      "Width x \<noteq> Unlimited \<Longrightarrow> length (bits res) = length (bits x) \<and>
         uv res = - ival x mod 2 ^ (8 * length (bits x)) \<and>
         (ov \<longleftrightarrow> \<not> fits (length (bits x)) (- ival x))"
    by blast
  have E: "Get_Complement x = Inr res" by (simp add: Get_Complement_def r(1))
  show ?thesis
    using r(2-6) fits_neg_iff [OF vx]
    by (intro that [OF E]) (auto simp add: nbits_def)
qed

subsection \<open>Zero and the most negative value\<close>

lemma is_zero_replicate: "is_zero x \<longleftrightarrow> bits x = replicate (length (bits x)) 0"
  unfolding is_zero_def list_all_iff
  by (metis in_set_replicate replicate_eqI)

lemma is_zero_uv: "is_zero x \<longleftrightarrow> uv x = 0"
proof
  assume "is_zero x"
  then have "bits x = replicate (length (bits x)) 0" by (simp add: is_zero_replicate)
  then have "uval (bits x) = uval (replicate (length (bits x)) 0)" by simp
  then show "uv x = 0" by (simp add: uv_def uval_replicate_zero)
next
  assume "uv x = 0"
  then have "uval (bits x) = uval (replicate (length (bits x)) 0)"
    by (simp add: uv_def uval_replicate_zero)
  then have "bits x = replicate (length (bits x)) 0" by (intro uval_inj) simp_all
  then show "is_zero x" by (simp add: is_zero_replicate)
qed

lemma uv_zero_iff_ival: "valid x \<Longrightarrow> uv x = 0 \<longleftrightarrow> ival x = 0"
  using ival_small [of x] uv_zero_of_ival [of x] by auto

lemma is_zero_ival: "valid x \<Longrightarrow> is_zero x \<longleftrightarrow> ival x = 0"
  by (simp add: is_zero_uv uv_zero_iff_ival)

lemma most_negative_uv:
  assumes "valid x"
  shows "most_negative x \<longleftrightarrow> uv x = 2 ^ (nbits x - 1)"
proof -
  let ?k = "length (bits x) - 1"
  have l: "0 < length (bits x)" using valid_length [OF assms] by linarith
  have e: "8 * ?k + 7 = nbits x - 1" using l by (cases "length (bits x)") (simp_all add: nbits_def)
  have len: "length (replicate ?k (0::8 word) @ [128]) = length (bits x)" using l by simp
  have "uval (replicate ?k 0 @ [128]) = 2 ^ (8 * ?k) * 128"
    by (simp add: uval_append uval_replicate_zero)
  also have "\<dots> = 2 ^ (8 * ?k + 7)" by (simp add: power_add)
  also have "\<dots> = 2 ^ (nbits x - 1)" by (simp only: e)
  finally have u: "uval (replicate ?k 0 @ [128]) = 2 ^ (nbits x - 1)" .
  show ?thesis
  proof
    assume "most_negative x"
    then have "uval (bits x) = uval (replicate ?k 0 @ [128])" by (simp add: most_negative_def)
    with u show "uv x = 2 ^ (nbits x - 1)" by (simp add: uv_def)
  next
    assume "uv x = 2 ^ (nbits x - 1)"
    with u have "uval (bits x) = uval (replicate ?k 0 @ [128])" by (simp add: uv_def)
    with len have "bits x = replicate ?k 0 @ [128]" by (intro uval_inj) simp_all
    then show "most_negative x" by (simp add: most_negative_def)
  qed
qed

lemma most_negative_ival:
  assumes "valid x"
  shows "most_negative x \<longleftrightarrow> ival x = - (2 ^ (nbits x - 1))"
proof -
  from ival_cases [OF assms] obtain P where P: "0 < P" "(2::int) ^ (nbits x - 1) = P"
    "0 \<le> uv x" "uv x < 2 * P" "ival x = (if uv x < P then uv x else uv x - 2 * P)"
    by blast
  show ?thesis
    unfolding most_negative_uv [OF assms] P(2) P(5) using P(1,3,4) by (auto split: if_splits)
qed

subsection \<open>Addition and negation operators\<close>

lemma fits_mono:
  assumes "fits A s" and "A \<le> B"
  shows "fits B s"
proof -
  have "(2::int) ^ (8 * A - 1) \<le> 2 ^ (8 * B - 1)" using assms(2) by (intro pow_le_int) simp
  with assms(1) show ?thesis unfolding fits_def by linarith
qed

lemma op_plus_spec:
  assumes vx: "valid x" and vy: "valid y"
  defines "A \<equiv> max (length (bits x)) (length (bits y))"
    and "W \<equiv> Get_Max (Width x) (Width y)"
    and "s \<equiv> ival x + ival y"
  shows "W = Unlimited \<or> fits A s \<Longrightarrow>
           \<exists>r. op_plus x y = Inr r \<and> valid r \<and> Width r = W \<and> ival r = s \<and>
               length (bits r) = (if fits A s then A else A + 1)"
    and "W \<noteq> Unlimited \<Longrightarrow> \<not> fits A s \<Longrightarrow>
           \<exists>r. op_plus x y = Inl (OverflowException r) \<and> valid r \<and> Width r = W \<and>
               length (bits r) = A \<and> uv r = s mod 2 ^ (8 * A)"
proof -
  from Add_spec [OF vx vy, folded A_def W_def s_def] obtain res ov c where
    r: "Add x y = Inr (res, ov, c)" "valid res" "Width res = W"
      "fits A s \<Longrightarrow> length (bits res) = A \<and> ival res = s \<and> \<not> ov"
      "W = Unlimited \<Longrightarrow>
         ival res = s \<and> \<not> ov \<and> length (bits res) = (if fits A s then A else A + 1)"
      "W \<noteq> Unlimited \<Longrightarrow>
         length (bits res) = A \<and> uv res = s mod 2 ^ (8 * A) \<and> (ov \<longleftrightarrow> \<not> fits A s)"
    by blast
  show "\<exists>r. op_plus x y = Inr r \<and> valid r \<and> Width r = W \<and> ival r = s \<and>
               length (bits r) = (if fits A s then A else A + 1)"
    if "W = Unlimited \<or> fits A s"
    using that r by (cases "W = Unlimited") (auto simp add: op_plus_def)
  show "\<exists>r. op_plus x y = Inl (OverflowException r) \<and> valid r \<and> Width r = W \<and>
               length (bits r) = A \<and> uv r = s mod 2 ^ (8 * A)"
    if "W \<noteq> Unlimited" "\<not> fits A s"
    using that r by (auto simp add: op_plus_def)
qed

lemma op_neg_Fixed:
  assumes "valid x" and "Width x = Fixed n"
  shows "\<exists>r. op_neg x = Inr r \<and> valid r \<and> Width r = Fixed n \<and>
             length (bits r) = n \<and> uv r = (- ival x) mod 2 ^ (8 * n)"
proof -
  have n: "length (bits x) = n" by (rule valid_Fixed [OF assms])
  from Get_Complement_spec [OF assms(1)] obtain res where
    "Get_Complement x = Inr res" "valid res" "Width res = Width x"
    "Width x \<noteq> Unlimited \<Longrightarrow>
       length (bits res) = length (bits x) \<and> uv res = (- ival x) mod 2 ^ nbits x"
    by blast
  with assms(2) n show ?thesis by (simp add: op_neg_def nbits_def)
qed

lemma op_neg_exact:
  assumes "valid x" and "Width x = Unlimited \<or> \<not> most_negative x"
  shows "\<exists>r. op_neg x = Inr r \<and> valid r \<and> Width r = Width x \<and> ival r = - ival x"
proof -
  from Get_Complement_spec [OF assms(1)] obtain res where
    r: "Get_Complement x = Inr res" "valid res" "Width res = Width x"
    "ival x \<noteq> - (2 ^ (nbits x - 1)) \<Longrightarrow>
           length (bits res) = length (bits x) \<and> ival res = - ival x"
    "Width x = Unlimited \<Longrightarrow> ival res = - ival x \<and>
           length (bits res) = (if ival x = - (2 ^ (nbits x - 1)) then length (bits x) + 1
                                else length (bits x))"
    by blast
  from assms(2) show ?thesis
  proof
    assume "Width x = Unlimited"
    with r show ?thesis by (simp add: op_neg_def)
  next
    assume "\<not> most_negative x"
    then have "ival x \<noteq> - (2 ^ (nbits x - 1))" by (simp add: most_negative_ival [OF assms(1)])
    with r show ?thesis by (simp add: op_neg_def)
  qed
qed

lemma op_neg_most_negative:
  assumes "valid x" and "Width x = Fixed n" and "most_negative x"
  shows "op_neg x = Inr x"
proof -
  from op_neg_Fixed [OF assms(1,2)] obtain r where
    r: "op_neg x = Inr r" "valid r" "Width r = Fixed n" "length (bits r) = n"
       "uv r = (- ival x) mod 2 ^ (8 * n)" by blast
  have n: "length (bits x) = n" by (rule valid_Fixed [OF assms(1,2)])
  then have nb: "nbits x = 8 * n" by (simp add: nbits_def)
  have 1: "ival x = - (2 ^ (8 * n - 1))" "uv x = 2 ^ (8 * n - 1)"
    using assms(3) most_negative_ival [OF assms(1)] most_negative_uv [OF assms(1)] nb by simp_all
  have "0 < 8 * n" using valid_nbits_pos [OF assms(1)] nb by simp
  then have "(2::int) ^ (8 * n - 1) < 2 ^ (8 * n)" by (intro power_strict_increasing) simp_all
  then have "(2::int) ^ (8 * n - 1) mod 2 ^ (8 * n) = 2 ^ (8 * n - 1)" by simp
  with r(5) 1 have "uv r = uv x" by simp
  with r(3,4) n assms(2) have "r = x" by (intro Integer_eqI) (simp_all add: nbits_def)
  with r(1) show ?thesis by simp
qed

subsection \<open>Division by zero and of zero\<close>

lemma is_zero_convert [simp]: "is_zero (convert w x) = is_zero x"
  by (simp add: is_zero_def convert_def)

lemma is_zero_kZero [simp]: "is_zero (kZero w)"
  by (simp add: is_zero_uv kZero_def)

lemma Div_Mod_by_zero:
  assumes "valid x" and "valid y" and "is_zero y"
  shows "Div_Mod x y = Inl (ArithmeticException ''Division By Zero'')"
proof -
  note z = const_props(1-3) [OF valid_valid_width [OF assms(1)]]
  have "ival y = 0" using assms(2,3) by (simp add: is_zero_ival)
  then have "op_eq y (kZero (Width x)) = Inr True"
    by (simp add: op_eq_spec [OF assms(2) z(1)] z(3))
  then show ?thesis by (simp add: Div_Mod_def)
qed

lemma Div_Mod_of_zero:
  assumes "valid x" and "valid y" and "is_zero x" and "\<not> is_zero y"
  shows "Div_Mod x y = Inr (convert (Get_Max (Width x) (Width y)) (kZero (Width x)),
                            convert (Get_Max (Width x) (Width y)) (kZero (Width x)))"
proof -
  note z = const_props(1-3) [OF valid_valid_width [OF assms(1)]]
  have "ival y \<noteq> 0" "ival x = 0" using assms by (simp_all add: is_zero_ival)
  then have "op_eq y (kZero (Width x)) = Inr False" "op_eq x (kZero (Width x)) = Inr True"
    by (simp_all add: op_eq_spec [OF assms(2) z(1)] op_eq_spec [OF assms(1) z(1)] z(3))
  then show ?thesis by (simp add: Div_Mod_def)
qed

text \<open>The width tag of the result of \<open>Add\<close>, without any assumption on the operands.\<close>

lemma Width_Get_Normalized:
  "Get_Normalized x w a = Inr r \<Longrightarrow> Width r = w"
  by (auto simp add: Get_Normalized_def convert_def Let_def split: if_splits)

lemma Width_fold_Add_step:
  "Width (fst (fold (Add_step l r) idxs s)) = Width (fst s)"
  by (induction idxs arbitrary: s) (simp_all add: Add_step_def split: prod.splits)

lemma Add_Width:
  assumes "Add l r = Inr (res, ov, c)"
  shows "Width res = Get_Max (Width l) (Width r)"
proof -
  let ?W = "Get_Max (Width l) (Width r)"
  let ?A = "max (Get_Actual_Width l) (Get_Actual_Width r)"
  from assms obtain left where left: "Get_Normalized_Existing l ?W ?A = Inr left"
    by (auto simp add: Add_def Let_def split: sum.splits)
  from assms left obtain right where right: "Get_Normalized_Existing r ?W ?A = Inr right"
    by (auto simp add: Add_def Let_def split: sum.splits)
  from assms left right obtain res0 where res0:
    "(if Is_Unlimited ?W then Get_Normalized_Existing (Integer_new ?W) ?W ?A
      else Inr (Integer_new ?W)) = Inr res0"
    by (auto simp add: Add_def Let_def split: sum.splits)
  have w0: "Width res0 = ?W"
    using res0 by (auto simp add: Get_Normalized_Existing_def Width_Get_Normalized split: if_splits)
  obtain r1 c1 where f: "fold (Add_step left right) [0..<Get_Actual_Bits_Cnt left] (res0, False) = (r1, c1)"
    by (cases "fold (Add_step left right) [0..<Get_Actual_Bits_Cnt left] (res0, False)")
  have w1: "Width r1 = ?W"
    using Width_fold_Add_step [of left right "[0..<Get_Actual_Bits_Cnt left]" "(res0, False)"] f w0
    by simp
  from assms show ?thesis
    unfolding Add_def Let_def left right res0 using f w1
    by (auto split: if_splits)
qed

subsection \<open>The word count of an unlimited product\<close>

text \<open>What \<open>Mul\<close> returns at unlimited width: a shrunk value or its complement.\<close>

lemma Width_fold_preserved:
  assumes "\<And>i r. Width (f i r) = Width r"
  shows "Width (fold f idxs x) = Width x"
  by (induction idxs arbitrary: x) (simp_all add: assms)

lemma Width_shl_loop [simp]: "Width (shl_loop s k r) = Width r"
  by (induction k arbitrary: r) simp_all

lemma Width_op_shl_Unlimited:
  "Width x = Unlimited \<Longrightarrow> Width (op_shl x k) = Unlimited"
  by (simp add: op_shl_def Width_fold_preserved)

lemma Mul_loop_Width:
  assumes "Mul_loop k (res, l, r, c) = Inr (res', l', r', c')" and "Width res = Unlimited"
  shows "Width res' = Unlimited"
  using assms
proof (induction k arbitrary: res l r c)
  case 0
  then show ?case by simp
next
  case (Suc k)
  show ?case
  proof (cases "bit_at r 0")
    case True
    with Suc.prems(1) obtain a ov cc where a: "Add res l = Inr (a, ov, cc)"
      and m: "Mul_loop k (a, op_shl l 1, op_shr r 1, c \<or> cc) = Inr (res', l', r', c')"
      by (auto split: sum.splits)
    have "Width a = Unlimited" using Add_Width [OF a] Suc.prems(2) by simp
    with Suc.IH [OF m] show ?thesis .
  next
    case False
    with Suc.prems(1) have "Mul_loop k (res, op_shl l 1, op_shr r 1, c) = Inr (res', l', r', c')"
      by simp
    from Suc.IH [OF this Suc.prems(2)] show ?thesis .
  qed
qed

lemma msb_scan_bit: "msb_scan x k \<le> k \<and> (msb_scan x k = 0 \<or> bit_at x (msb_scan x k))"
  by (induction k) auto

lemma length_Shrink:
  "length (bits (Shrink r)) = max (((Get_Msb_Idx r + 1) div 8) + 1) 4"
  by (simp add: Shrink_def Let_def kWord_Bits_Cnt_def kWidth_Min_def)

lemma Width_Shrink [simp]: "Width (Shrink r) = Width r"
  by (simp add: Shrink_def Let_def)

lemma valid_Shrink: "Width r = Unlimited \<Longrightarrow> valid (Shrink r)"
  by (simp add: valid_def length_Shrink kWidth_Min_def)

lemma Shrink_zero_length:
  assumes "Width r = Unlimited" and "is_zero (Shrink r)"
  shows "length (bits (Shrink r)) = 4"
proof -
  define m where "m = Get_Msb_Idx r"
  define n where "n = 8 * length (bits r)"
  have mm: "m = msb_scan r (n - 1)"
    by (simp add: m_def n_def Get_Msb_Idx_def Get_Actual_Bits_Cnt_def Get_Actual_Width_def
        assms(1) kWord_Bits_Cnt_def mult.commute)
  have "m = 0"
  proof (rule ccontr)
    assume "m \<noteq> 0"
    with msb_scan_bit [of r "n - 1"] mm have b: "m \<le> n - 1" "bit_at r m" by auto
    with \<open>m \<noteq> 0\<close> have mn: "m < n" by simp
    then have i: "m div 8 < length (bits r)" by (simp add: n_def div_less_iff_less_mult mult.commute)
    have "m div 8 < (m + 1) div 8 + 1"
      using div_le_mono [of m "m + 1" 8] by simp
    then have j: "m div 8 < max (((m + 1) div 8) + 1) 4" by simp
    have "bits (Shrink r) ! (m div 8) = bits r ! (m div 8)"
      using i j by (simp add: Shrink_def Let_def m_def [symmetric] kWord_Bits_Cnt_def
          kWidth_Min_def nth_append)
    moreover have "m div 8 < length (bits (Shrink r))"
      using j by (simp add: length_Shrink m_def)
    ultimately have "bits r ! (m div 8) = 0"
      using assms(2) by (auto simp add: is_zero_def list_all_length)
    with b(2) show False by (simp add: bit_at_def kWord_Bits_Cnt_def)
  qed
  then show ?thesis by (simp add: length_Shrink m_def)
qed

lemma Mul_Unlimited_cases:
  assumes "Mul c x y = Inr (r, ov)" and "Get_Max (Width x) (Width y) = Unlimited"
  obtains k l0 r0 result1 l1 r1 cf where
    "Mul_loop k (Integer_new Unlimited, l0, r0, c) = Inr (result1, l1, r1, cf)"
    and "r = Shrink result1 \<or> Get_Complement (Shrink result1) = Inr r"
  using assms unfolding Mul_def Let_def
  by (auto simp add: Is_Unlimited_def simp del: Mul_loop.simps
      split: sum.splits prod.splits if_splits)

lemma Mul_Unlimited_zero:
  assumes "Mul c x y = Inr (r, ov)" and "Get_Max (Width x) (Width y) = Unlimited"
    and "is_zero r"
  shows "length (bits r) = 4"
proof -
  from Mul_Unlimited_cases [OF assms(1,2)] obtain k l0 r0 result1 l1 r1 cf where
    m: "Mul_loop k (Integer_new Unlimited, l0, r0, c) = Inr (result1, l1, r1, cf)"
    and r: "r = Shrink result1 \<or> Get_Complement (Shrink result1) = Inr r" by blast
  have w: "Width result1 = Unlimited" using Mul_loop_Width [OF m] by simp
  from r show ?thesis
  proof
    assume "r = Shrink result1"
    with Shrink_zero_length [OF w] assms(3) show ?thesis by simp
  next
    assume g: "Get_Complement (Shrink result1) = Inr r"
    let ?s = "Shrink result1"
    have v: "valid ?s" by (rule valid_Shrink [OF w])
    from Get_Complement_spec [OF v] g obtain
      c: "valid r" "ival r = - ival ?s"
      "length (bits r) = (if ival ?s = - (2 ^ (nbits ?s - 1)) then length (bits ?s) + 1
                          else length (bits ?s))"
      using w by auto
    have "ival r = 0" using assms(3) c(1) by (simp add: is_zero_ival)
    with c(2) have z: "ival ?s = 0" by simp
    then have "is_zero ?s" using v by (simp add: is_zero_ival)
    from Shrink_zero_length [OF w this] c(3) z show ?thesis by simp
  qed
qed

subsection \<open>Shape of shifts, absolute values, sums and differences\<close>

text \<open>Shape of the results: width tag, word count and the class invariant.\<close>

lemma length_fold_preserved:
  assumes "\<And>i r. length (bits (f i r)) = length (bits r)"
  shows "length (bits (fold f idxs x)) = length (bits x)"
  by (induction idxs arbitrary: x) (simp_all add: assms)

lemma length_shl_loop [simp]: "length (bits (shl_loop s k r)) = length (bits r)"
  by (induction k arbitrary: r) simp_all

lemma length_of_bitset:
  assumes "length bs = 8 * n"
  shows "length (bits (Integer_of_bitset (Fixed n) bs)) = n"
  using Integer_of_bitset_Fixed(2) [OF assms] by (simp add: nbits_def)

lemma op_shl_shape:
  assumes "valid x"
  shows "Width (op_shl x k) = Width x" and "length (bits (op_shl x k)) = length (bits x)"
    and "valid (op_shl x k)"
proof -
  show w: "Width (op_shl x k) = Width x"
  proof (cases "Width x")
    case (Fixed n)
    then show ?thesis
      by (simp add: op_shl_def Integer_of_bitset_Fixed(1) bitset_shl_def Get_Bitset_def
          kWord_Bits_Cnt_def mult.commute)
  next
    case Unlimited
    then show ?thesis by (simp add: op_shl_def Width_fold_preserved)
  qed
  show l: "length (bits (op_shl x k)) = length (bits x)"
  proof (cases "Width x")
    case (Fixed n)
    have "length (bitset_shl (Get_Bitset n x) k) = 8 * n"
      by (simp add: bitset_shl_def Get_Bitset_def kWord_Bits_Cnt_def mult.commute)
    from length_of_bitset [OF this] Fixed valid_Fixed [OF assms Fixed] show ?thesis
      by (simp add: op_shl_def)
  next
    case Unlimited
    then show ?thesis by (simp add: op_shl_def length_fold_preserved)
  qed
  show "valid (op_shl x k)"
    using assms w l by (simp add: valid_def split: width.splits)
qed

lemma Get_Normalized_Inr:
  assumes "valid x" and "Get_Normalized x W A = Inr r"
  shows "length (bits x) \<le> A" and "Width r = W" and "length (bits r) = A"
    and "ival r = ival x"
proof -
  show le: "length (bits x) \<le> A"
  proof (rule ccontr)
    assume "\<not> length (bits x) \<le> A"
    then have "A < length (bits x)" by simp
    from Get_Normalized_shorter [OF assms(1) this, of W] assms(2) show False by simp
  qed
  from Get_Normalized_ok [OF assms(1) le, of W] assms(2)
  show "Width r = W" "length (bits r) = A" "ival r = ival x" by auto
qed

lemma Get_Positive_spec:
  assumes "valid x"
  obtains p where "Get_Positive x = Inr p" and "valid p" and "Width p = Width x"
    and "Width x = Unlimited \<Longrightarrow> ival p = \<bar>ival x\<bar>"
    and "Width x \<noteq> Unlimited \<Longrightarrow> length (bits p) = length (bits x)"
    and "ival x \<noteq> - (2 ^ (nbits x - 1)) \<Longrightarrow>
           ival p = \<bar>ival x\<bar> \<and> length (bits p) = length (bits x)"
proof (cases "Is_Positive x")
  case True
  then have "0 \<le> ival x" using Is_Positive_ival [OF assms] by simp
  with True show ?thesis by (intro that [of x]) (simp_all add: Get_Positive_def assms)
next
  case False
  then have n: "ival x < 0" using Is_Positive_ival [OF assms] by simp
  from Get_Complement_spec [OF assms] obtain res where
    r: "Get_Complement x = Inr res" "valid res" "Width res = Width x"
    "ival x \<noteq> - (2 ^ (nbits x - 1)) \<Longrightarrow>
           length (bits res) = length (bits x) \<and> ival res = - ival x"
    "Width x = Unlimited \<Longrightarrow> ival res = - ival x \<and>
           length (bits res) = (if ival x = - (2 ^ (nbits x - 1)) then length (bits x) + 1
                                else length (bits x))"
    "Width x \<noteq> Unlimited \<Longrightarrow>
           length (bits res) = length (bits x) \<and> uv res = (- ival x) mod 2 ^ nbits x"
    by blast
  show ?thesis
    using False n r by (intro that [of res]) (simp_all add: Get_Positive_def)
qed

lemma op_plus_Inr:
  assumes "valid x" and "valid y" and "op_plus x y = Inr s"
  shows "valid s" and "Width s = Get_Max (Width x) (Width y)"
    and "ival s = ival x + ival y"
    and "length (bits s) =
           (if fits (max (length (bits x)) (length (bits y))) (ival x + ival y)
            then max (length (bits x)) (length (bits y))
            else max (length (bits x)) (length (bits y)) + 1)"
    and "Get_Max (Width x) (Width y) \<noteq> Unlimited \<Longrightarrow>
           fits (max (length (bits x)) (length (bits y))) (ival x + ival y)"
proof -
  let ?A = "max (length (bits x)) (length (bits y))"
  let ?W = "Get_Max (Width x) (Width y)"
  have c: "?W = Unlimited \<or> fits ?A (ival x + ival y)"
  proof (rule ccontr)
    assume "\<not> (?W = Unlimited \<or> fits ?A (ival x + ival y))"
    then have "?W \<noteq> Unlimited" "\<not> fits ?A (ival x + ival y)" by simp_all
    from op_plus_spec(2) [OF assms(1,2) this] assms(3) show False by auto
  qed
  from op_plus_spec(1) [OF assms(1,2) c] assms(3)
  show "valid s" "Width s = ?W" "ival s = ival x + ival y"
    "length (bits s) = (if fits ?A (ival x + ival y) then ?A else ?A + 1)"
    by auto
  from c show "fits ?A (ival x + ival y)" if "?W \<noteq> Unlimited" using that by simp
qed

lemma op_minus_Inr:
  assumes "valid x" and "valid y" and "op_minus x y = Inr s"
  obtains c where "op_neg y = Inr c" and "valid c" and "Width c = Width y"
    and "op_plus x c = Inr s" and "valid s" and "Width s = Get_Max (Width x) (Width y)"
    and "ival s = ival x + ival c"
    and "length (bits s) =
           (if fits (max (length (bits x)) (length (bits c))) (ival x + ival c)
            then max (length (bits x)) (length (bits c))
            else max (length (bits x)) (length (bits c)) + 1)"
proof -
  from Get_Complement_spec [OF assms(2)] obtain c where
    c: "Get_Complement y = Inr c" "valid c" "Width c = Width y" by blast
  with assms(3) have p: "op_plus x c = Inr s" by (simp add: op_minus_def)
  note r = op_plus_Inr [OF assms(1) c(2) p]
  show ?thesis
    using c p r(1-4) by (intro that [of c]) (simp_all add: op_neg_def)
qed

subsection \<open>Shape of products\<close>

text \<open>The stages of \<open>Mul\<close> and the shape of what it returns.\<close>

lemma sum_bind_InrE:
  assumes "(case m of Inl e \<Rightarrow> Inl e | Inr v \<Rightarrow> f v) = Inr r"
  obtains v where "m = Inr v" and "f v = Inr r"
  using assms by (cases m) simp_all

lemma Mul_cases:
  assumes "Mul c x y = Inr (p, ov)"
    and W: "W = Get_Max (Width x) (Width y)"
    and A: "A = max (Get_Actual_Width x) (Get_Actual_Width y)"
  obtains lp left0 rp right0 left right result1 l1 r1 cf where
    "Get_Positive x = Inr lp" and "Get_Normalized lp W A = Inr left0"
    and "Get_Positive y = Inr rp" and "Get_Normalized rp W A = Inr right0"
    and "(if W = Unlimited then Get_Normalized left0 W (2 * A) else Inr left0) = Inr left"
    and "(if W = Unlimited then Get_Normalized right0 W (2 * A) else Inr right0) = Inr right"
    and "Mul_loop (Get_Msb_Idx right + 1) (Integer_new W, left, right, c) =
           Inr (result1, l1, r1, cf)"
    and "ov = (W \<noteq> Unlimited \<and> (cf \<or> \<not> Is_Positive result1))"
    and "(if Is_Positive x = Is_Positive y
          then Inr (if W = Unlimited then Shrink result1 else result1)
          else Get_Complement (if W = Unlimited then Shrink result1 else result1)) = Inr p"
proof -
  note M = assms(1) [unfolded Mul_def Let_def Get_Normalized_Existing_def Is_Unlimited_def
      Is_Limited_def W [symmetric] A [symmetric]]
  from M show ?thesis
    apply (elim sum_bind_InrE)
    subgoal premises prems for lp left0 rp right0 left right v
    proof -
      obtain result1 l1 r1 cf where vv: "v = (result1, l1, r1, cf)" by (cases v)
      let ?r = "if W = Unlimited then Shrink result1 else result1"
      let ?o = "W \<noteq> Unlimited \<and> (cf \<or> \<not> Is_Positive result1)"
      have M8: "(if Is_Positive x = Is_Positive y then Inr (?r, ?o)
            else (case Get_Complement ?r of Inl e \<Rightarrow> Inl e | Inr cm \<Rightarrow> Inr (cm, ?o)))
            = Inr (p, ov)"
        using prems(8) unfolding vv prod.case .
      have fin: "ov = ?o \<and>
          (if Is_Positive x = Is_Positive y then Inr ?r else Get_Complement ?r) = Inr p"
      proof (cases "Is_Positive x = Is_Positive y")
        case True
        with M8 show ?thesis by simp
      next
        case False
        with M8 have "(case Get_Complement ?r of Inl e \<Rightarrow> Inl e | Inr cm \<Rightarrow> Inr (cm, ?o))
            = Inr (p, ov)"
          by simp
        then show ?thesis using False by (elim sum_bind_InrE) simp
      qed
      show ?thesis
        by (rule that [OF prems(1-6) prems(7) [unfolded vv] conjunct1 [OF fin] conjunct2 [OF fin]])
    qed
    done
qed

lemma Mul_loop_valid:
  assumes "Mul_loop k (res, l, r, c) = Inr (res', l', r', c')"
    and "valid res" and "valid l" and "Width res = W" and "Width l = W"
  shows "valid res' \<and> Width res' = W"
  using assms
proof (induction k arbitrary: res l r c)
  case 0
  then show ?case by simp
next
  case (Suc k)
  note sh = op_shl_shape [OF Suc.prems(3), of 1]
  show ?case
  proof (cases "bit_at r 0")
    case True
    with Suc.prems(1) obtain a ov cc where a: "Add res l = Inr (a, ov, cc)"
      and m: "Mul_loop k (a, op_shl l 1, op_shr r 1, c \<or> cc) = Inr (res', l', r', c')"
      by (auto split: sum.splits)
    from Add_spec [OF Suc.prems(2,3)] a have va: "valid a" by auto
    have wa: "Width a = W" using Add_Width [OF a] Suc.prems(4,5) by simp
    from Suc.IH [OF m va sh(3) wa] sh(1) Suc.prems(5) show ?thesis by simp
  next
    case False
    with Suc.prems(1) have m: "Mul_loop k (res, op_shl l 1, op_shr r 1, c) = Inr (res', l', r', c')"
      by simp
    from Suc.IH [OF m Suc.prems(2) sh(3) Suc.prems(4)] sh(1) Suc.prems(5) show ?thesis by simp
  qed
qed

lemma Get_Max_valid_width:
  "valid_width a \<Longrightarrow> valid_width b \<Longrightarrow> valid_width (Get_Max a b)"
  by (cases a; cases b) (simp_all add: valid_width_def)

lemma valid_normalized:
  assumes "valid x" and "valid y" and "valid p"
    and "Get_Normalized p (Get_Max (Width x) (Width y))
           (max (length (bits x)) (length (bits y))) = Inr r"
  shows "valid r"
proof -
  note n = Get_Normalized_Inr [OF assms(3,4)]
  show ?thesis
  proof (rule valid_I)
    show "4 \<le> length (bits r)" using n(3) valid_length [OF assms(1)] by simp
    show "length (bits r) = n" if "Width r = Fixed n" for n
      using valid_Get_Max_length [OF assms(1,2)] n(2,3) that by simp
  qed
qed

lemma Mul_valid:
  assumes "valid x" and "valid y" and "Mul c x y = Inr (p, ov)"
  shows "valid p" and "Width p = Get_Max (Width x) (Width y)"
proof -
  let ?W = "Get_Max (Width x) (Width y)"
  let ?A = "max (length (bits x)) (length (bits y))"
  have A: "max (Get_Actual_Width x) (Get_Actual_Width y) = ?A"
    by (simp add: valid_Get_Actual_Width assms(1,2))
  obtain lp left0 rp right0 left right result1 l1 r1 cf
    where s: "Get_Positive x = Inr lp" "Get_Normalized lp ?W ?A = Inr left0"
      "Get_Positive y = Inr rp" "Get_Normalized rp ?W ?A = Inr right0"
      "(if ?W = Unlimited then Get_Normalized left0 ?W (2 * ?A) else Inr left0) = Inr left"
      "(if ?W = Unlimited then Get_Normalized right0 ?W (2 * ?A) else Inr right0) = Inr right"
      "Mul_loop (Get_Msb_Idx right + 1) (Integer_new ?W, left, right, c) =
           Inr (result1, l1, r1, cf)"
      "ov = (?W \<noteq> Unlimited \<and> (cf \<or> \<not> Is_Positive result1))"
      "(if Is_Positive x = Is_Positive y
          then Inr (if ?W = Unlimited then Shrink result1 else result1)
          else Get_Complement (if ?W = Unlimited then Shrink result1 else result1)) = Inr p"
    by (rule Mul_cases [OF assms(3) refl A [symmetric]])
  from Get_Positive_spec [OF assms(1)] s(1) have vlp: "valid lp" by auto
  have v0: "valid left0" by (rule valid_normalized [OF assms(1,2) vlp s(2)])
  note n0 = Get_Normalized_Inr [OF vlp s(2)]
  have vl: "valid left \<and> Width left = ?W"
  proof (cases "?W = Unlimited")
    case True
    with s(5) have g: "Get_Normalized left0 ?W (2 * ?A) = Inr left" by simp
    note n = Get_Normalized_Inr [OF v0 g]
    have "valid left"
      using n(2,3) True valid_length [OF assms(1)] by (intro valid_I) simp_all
    with n(2) show ?thesis by simp
  next
    case False
    with s(5) v0 n0(2) show ?thesis by simp
  qed
  have vw: "valid_width ?W"
    by (intro Get_Max_valid_width valid_valid_width assms)
  have vn: "valid (Integer_new ?W)" by (rule valid_width_Integer_new [OF vw])
  from Mul_loop_valid [OF s(7) vn _ Width_Integer_new] vl
  have r1: "valid result1" "Width result1 = ?W" by simp_all
  let ?r = "if ?W = Unlimited then Shrink result1 else result1"
  have vr: "valid ?r" "Width ?r = ?W"
    using r1 valid_Shrink [of result1] by simp_all
  show "valid p" "Width p = ?W"
  proof -
    from Get_Complement_spec [OF vr(1)] obtain cm where
      cm: "Get_Complement ?r = Inr cm" "valid cm" "Width cm = Width ?r" by blast
    from s(9) cm vr have "valid p \<and> Width p = ?W"
      by (cases "Is_Positive x = Is_Positive y") auto
    then show "valid p" "Width p = ?W" by simp_all
  qed
qed

lemma op_times_Inr:
  assumes "valid x" and "valid y" and "op_times c x y = Inr p"
  shows "valid p" and "Width p = Get_Max (Width x) (Width y)"
proof -
  from assms(3) obtain ov where "Mul c x y = Inr (p, ov)"
    by (auto simp add: op_times_def split: sum.splits prod.splits if_splits)
  from Mul_valid [OF assms(1,2) this]
  show "valid p" "Width p = Get_Max (Width x) (Width y)" by simp_all
qed

subsection \<open>Shape of quotients and remainders\<close>

text \<open>The stages of \<open>Div_Mod\<close> and the shape of what it returns.\<close>

lemma valid_shape_cong:
  "Width a = Width b \<Longrightarrow> length (bits a) = length (bits b) \<Longrightarrow> valid a = valid b"
  by (cases "Width b") (simp_all add: valid_def)

lemma nonneg_not_neg_pow: "0 \<le> a \<Longrightarrow> a \<noteq> - (2 ^ k :: int)"
proof -
  have "(0::int) < 2 ^ k" by simp
  then show "0 \<le> a \<Longrightarrow> a \<noteq> - (2 ^ k :: int)" by linarith
qed

lemma Div_Mod_cases:
  assumes "valid x" and "valid y" and "\<not> is_zero x" and "Div_Mod x y = Inr (q, r)"
    and W: "W = Get_Max (Width x) (Width y)"
    and A: "A = max (Get_Actual_Width x) (Get_Actual_Width y)"
  obtains lp numerator rp denominator zero quot where
    "Get_Positive x = Inr lp" and "Get_Normalized lp W A = Inr numerator"
    and "Get_Positive y = Inr rp" and "Get_Normalized rp W A = Inr denominator"
    and "Get_Normalized (Integer_new W) W A = Inr zero"
    and "Div_Mod_loop (map (\<lambda>i. Get_Msb_Idx numerator - i) [0..<Get_Msb_Idx numerator + 1])
           numerator denominator (zero, zero) = Inr (quot, r)"
    and "(if Is_Positive x = Is_Positive y then Inr quot else Get_Complement quot) = Inr q"
    and "\<not> is_zero y"
proof -
  note z = const_props(1-3) [OF valid_valid_width [OF assms(1)]]
  have ny: "\<not> is_zero y"
    using Div_Mod_by_zero [OF assms(1,2)] assms(4) by auto
  have e1: "op_eq y (kZero (Width x)) = Inr False"
    using ny is_zero_ival [OF assms(2)] by (simp add: op_eq_spec [OF assms(2) z(1)] z(3))
  have e2: "op_eq x (kZero (Width x)) = Inr False"
    using assms(3) is_zero_ival [OF assms(1)] by (simp add: op_eq_spec [OF assms(1) z(1)] z(3))
  note M = assms(4) [unfolded Div_Mod_def e1 e2 sum.case bool.case Let_def
      Get_Normalized_Existing_def Get_Normalized_New_def W [symmetric] A [symmetric]]
  from M show ?thesis
    apply (elim sum_bind_InrE)
    subgoal premises prems for lp numerator rp denominator zero v
    proof -
      obtain quot rem where vv: "v = (quot, rem)" by (cases v)
      have M8: "(if Is_Positive x = Is_Positive y then Inr (quot, rem)
            else (case Get_Complement quot of Inl e \<Rightarrow> Inl e | Inr cm \<Rightarrow> Inr (cm, rem)))
            = Inr (q, r)"
        using prems(7) unfolding vv prod.case .
      have fin: "rem = r \<and>
          (if Is_Positive x = Is_Positive y then Inr quot else Get_Complement quot) = Inr q"
      proof (cases "Is_Positive x = Is_Positive y")
        case True
        with M8 show ?thesis by simp
      next
        case False
        with M8 have "(case Get_Complement quot of Inl e \<Rightarrow> Inl e | Inr cm \<Rightarrow> Inr (cm, rem))
            = Inr (q, r)"
          by simp
        then show ?thesis using False by (elim sum_bind_InrE) simp
      qed
      from fin have rr: "rem = r" by simp
      show ?thesis
        by (rule that [OF prems(1-5) prems(6) [unfolded vv rr] conjunct2 [OF fin] ny])
    qed
    done
qed

lemma Div_Mod_loop_shape:
  assumes "Div_Mod_loop idxs num den (q, r) = Inr (q', r')"
    and "valid den" and "Width den = W" and "length (bits den) = A"
    and "valid q" and "Width q = W" and "length (bits q) = A"
    and "valid r" and "Width r = W"
    and "W \<noteq> Unlimited \<or> 0 \<le> ival den \<Longrightarrow> length (bits r) = A"
  shows "valid q' \<and> Width q' = W \<and> length (bits q') = A \<and> valid r' \<and> Width r' = W \<and>
         (W \<noteq> Unlimited \<or> 0 \<le> ival den \<longrightarrow> length (bits r') = A)"
  using assms
proof (induction idxs arbitrary: q r)
  case Nil
  then show ?case by simp
next
  case (Cons idx idxs)
  define r1 where "r1 = bit_put (op_shl r 1) 0 (bit_at num idx)"
  note sh = op_shl_shape [OF Cons.prems(8), of 1]
  have r1: "valid r1" "Width r1 = W"
    using sh Cons.prems(9) by (simp_all add: r1_def)
  have r1l: "length (bits r1) = A" if "W \<noteq> Unlimited \<or> 0 \<le> ival den"
    using sh Cons.prems(10) [OF that] by (simp add: r1_def)
  have q1: "valid (bit_put q idx True)" "Width (bit_put q idx True) = W"
    "length (bits (bit_put q idx True)) = A"
    using Cons.prems(5-7) by simp_all
  from Cons.prems(1) have
    "(case op_minus r1 den of
        Inl e \<Rightarrow> Inl e
      | Inr difference \<Rightarrow>
          if Is_Positive difference
          then Div_Mod_loop idxs num den (bit_put q idx True, assign r1 difference)
          else Div_Mod_loop idxs num den (q, r1)) = Inr (q', r')"
    unfolding r1_def Div_Mod_loop.simps prod.case Let_def .
  then obtain d where d: "op_minus r1 den = Inr d"
    and m: "(if Is_Positive d
             then Div_Mod_loop idxs num den (bit_put q idx True, assign r1 d)
             else Div_Mod_loop idxs num den (q, r1)) = Inr (q', r')"
    by (rule sum_bind_InrE)
  show ?case
  proof (cases "Is_Positive d")
    case False
    with m have "Div_Mod_loop idxs num den (q, r1) = Inr (q', r')" by simp
    from Cons.IH [OF this Cons.prems(2-7) r1 r1l] show ?thesis .
  next
    case True
    with m have l: "Div_Mod_loop idxs num den (bit_put q idx True, assign r1 d) = Inr (q', r')"
      by simp
    from op_minus_Inr [OF r1(1) Cons.prems(2) d] obtain c where
      c: "op_neg den = Inr c" "valid c" "Width c = Width den" "valid d"
        "Width d = Get_Max (Width r1) (Width den)" "ival d = ival r1 + ival c"
        "length (bits d) =
           (if fits (max (length (bits r1)) (length (bits c))) (ival r1 + ival c)
            then max (length (bits r1)) (length (bits c))
            else max (length (bits r1)) (length (bits c)) + 1)"
      by blast
    have wd: "Width d = W" using c(5) r1(2) Cons.prems(3) by simp
    have a: "valid (assign r1 d)" "Width (assign r1 d) = W"
      using c(4) wd r1(2) valid_shape_cong [of "assign r1 d" d]
      by (simp_all add: assign_def)
    have len: "length (bits (assign r1 d)) = A" if h: "W \<noteq> Unlimited \<or> 0 \<le> ival den"
    proof (cases W)
      case (Fixed n)
      from valid_Fixed [OF c(4)] wd Fixed have "length (bits d) = n" by simp
      moreover from valid_Fixed [OF Cons.prems(2)] Cons.prems(3,4) Fixed have "A = n" by simp
      ultimately show ?thesis by (simp add: assign_def)
    next
      case Unlimited
      with h have nn: "0 \<le> ival den" by simp
      from Get_Complement_spec [OF Cons.prems(2)] c(1) obtain
        "ival den \<noteq> - (2 ^ (nbits den - 1)) \<Longrightarrow>
           length (bits c) = length (bits den) \<and> ival c = - ival den"
        by (auto simp add: op_neg_def)
      moreover have "ival den \<noteq> - (2 ^ (nbits den - 1))" by (rule nonneg_not_neg_pow [OF nn])
      ultimately have cc: "length (bits c) = A" "ival c = - ival den"
        using Cons.prems(4) by simp_all
      have "0 \<le> ival d" using True Is_Positive_ival [OF c(4)] by simp
      moreover have "ival r1 < 2 ^ (8 * A - 1)"
        using ival_upper [OF r1(1)] r1l [OF h] by (simp add: nbits_def)
      ultimately have "fits A (ival r1 + ival c)"
        using nn c(6) cc(2) by (simp add: fits_def)
      with c(7) cc(1) r1l [OF h] show ?thesis by (simp add: assign_def)
    qed
    from Cons.IH [OF l Cons.prems(2-4) q1 a len] show ?thesis .
  qed
qed

lemma Div_Mod_shape:
  assumes "valid x" and "valid y" and "\<not> is_zero x" and "Div_Mod x y = Inr (q, r)"
  shows "valid q" and "Width q = Get_Max (Width x) (Width y)"
    and "valid r" and "Width r = Get_Max (Width x) (Width y)"
    and "Get_Max (Width x) (Width y) \<noteq> Unlimited \<or> is_zero q \<Longrightarrow>
           length (bits q) = max (length (bits x)) (length (bits y))"
    and "Get_Max (Width x) (Width y) \<noteq> Unlimited \<or> Width y = Unlimited \<or> \<not> most_negative y \<Longrightarrow>
           length (bits r) = max (length (bits x)) (length (bits y))"
proof -
  let ?W = "Get_Max (Width x) (Width y)"
  let ?A = "max (length (bits x)) (length (bits y))"
  have A: "?A = max (Get_Actual_Width x) (Get_Actual_Width y)"
    by (simp add: valid_Get_Actual_Width assms(1,2))
  obtain lp numerator rp denominator zero quot where
    s: "Get_Positive x = Inr lp" "Get_Normalized lp ?W ?A = Inr numerator"
      "Get_Positive y = Inr rp" "Get_Normalized rp ?W ?A = Inr denominator"
      "Get_Normalized (Integer_new ?W) ?W ?A = Inr zero"
      "Div_Mod_loop (map (\<lambda>i. Get_Msb_Idx numerator - i) [0..<Get_Msb_Idx numerator + 1])
           numerator denominator (zero, zero) = Inr (quot, r)"
      "(if Is_Positive x = Is_Positive y then Inr quot else Get_Complement quot) = Inr q"
      "\<not> is_zero y"
    by (rule Div_Mod_cases [OF assms refl A])
  from Get_Positive_spec [OF assms(2)] s(3) have rp: "valid rp"
    "Width y = Unlimited \<Longrightarrow> ival rp = \<bar>ival y\<bar>"
    "ival y \<noteq> - (2 ^ (nbits y - 1)) \<Longrightarrow> ival rp = \<bar>ival y\<bar>"
    by auto
  have vd: "valid denominator" by (rule valid_normalized [OF assms(1,2) rp(1) s(4)])
  note nd = Get_Normalized_Inr [OF rp(1) s(4)]
  have vw: "valid_width ?W"
    by (intro Get_Max_valid_width valid_valid_width assms)
  have vn: "valid (Integer_new ?W)" by (rule valid_width_Integer_new [OF vw])
  have vz: "valid zero" by (rule valid_normalized [OF assms(1,2) vn s(5)])
  note nz = Get_Normalized_Inr [OF vn s(5)]
  from Div_Mod_loop_shape [OF s(6) vd nd(2,3) vz nz(2,3) vz nz(2,3)]
  have sh: "valid quot" "Width quot = ?W" "length (bits quot) = ?A" "valid r" "Width r = ?W"
    "?W \<noteq> Unlimited \<or> 0 \<le> ival denominator \<Longrightarrow> length (bits r) = ?A"
    by simp_all
  show "valid r" "Width r = ?W" by (rule sh(4), rule sh(5))
  from Get_Complement_spec [OF sh(1)] obtain cm where
    cm: "Get_Complement quot = Inr cm" "valid cm" "Width cm = Width quot"
    "ival quot \<noteq> - (2 ^ (nbits quot - 1)) \<Longrightarrow>
           length (bits cm) = length (bits quot) \<and> ival cm = - ival quot"
    "Width quot = Unlimited \<Longrightarrow> ival cm = - ival quot \<and>
           length (bits cm) = (if ival quot = - (2 ^ (nbits quot - 1)) then length (bits quot) + 1
                                else length (bits quot))"
    "Width quot \<noteq> Unlimited \<Longrightarrow>
           length (bits cm) = length (bits quot) \<and> uv cm = (- ival quot) mod 2 ^ nbits quot"
    by blast
  from s(7) have qq: "q = quot \<or> q = cm"
    using cm(1) by (cases "Is_Positive x = Is_Positive y") simp_all
  with sh(1,2) cm(2,3) show vq: "valid q" and wq: "Width q = ?W" by auto
  show "length (bits q) = ?A" if h: "?W \<noteq> Unlimited \<or> is_zero q"
  proof (cases "q = quot")
    case True
    with sh(3) show ?thesis by simp
  next
    case False
    with qq have qc: "q = cm" by simp
    show ?thesis
    proof (cases "?W = Unlimited")
      case False
      with cm(6) sh(2,3) qc show ?thesis by simp
    next
      case True
      with h have "is_zero q" by simp
      with is_zero_ival [OF vq] have "ival q = 0" by simp
      with cm(5) True sh(2) qc have "ival quot = 0" by simp
      then have "ival quot \<noteq> - (2 ^ (nbits quot - 1))" by (intro nonneg_not_neg_pow) simp
      from cm(4) [OF this] sh(3) qc show ?thesis by simp
    qed
  qed
  show "length (bits r) = ?A"
    if h: "?W \<noteq> Unlimited \<or> Width y = Unlimited \<or> \<not> most_negative y"
  proof (cases "?W = Unlimited")
    case False
    with sh(6) show ?thesis by simp
  next
    case True
    from h True have "Width y = Unlimited \<or> ival y \<noteq> - (2 ^ (nbits y - 1))"
      using most_negative_ival [OF assms(2)] by simp
    with rp(2,3) have "ival rp = \<bar>ival y\<bar>" by blast
    with nd(4) have "0 \<le> ival denominator" by simp
    with sh(6) show ?thesis by simp
  qed
qed

section \<open>Properties of the operations\<close>

lemma rebind_error: "fst (rebind this r) = Some e \<Longrightarrow> snd (rebind this r) = this"
  by (cases r) (simp_all add: rebind_def)

text \<open>
  Claim C10. When prefix increment, prefix decrement or a compound assignment
  (\<open>+=\<close>, \<open>-=\<close>, \<open>*=\<close>, \<open>/=\<close>, \<open>%=\<close>) ends with an error, the receiver is exactly
  the value it was before the operation.
\<close>

theorem failed_rebinding_keeps_receiver:
  "(fst (op_inc xa) = Some ea \<longrightarrow> snd (op_inc xa) = xa) \<and>
   (fst (op_dec xb) = Some eb \<longrightarrow> snd (op_dec xb) = xb) \<and>
   (fst (op_plus_assign xc yc) = Some ec \<longrightarrow> snd (op_plus_assign xc yc) = xc) \<and>
   (fst (op_minus_assign xd yd) = Some ed \<longrightarrow> snd (op_minus_assign xd yd) = xd) \<and>
   (fst (op_times_assign c xe ye) = Some ee \<longrightarrow> snd (op_times_assign c xe ye) = xe) \<and>
   (fst (op_div_assign xf yf) = Some ef \<longrightarrow> snd (op_div_assign xf yf) = xf) \<and>
   (fst (op_mod_assign xg yg) = Some eg \<longrightarrow> snd (op_mod_assign xg yg) = xg)"
  unfolding op_inc_def op_dec_def op_plus_assign_def op_minus_assign_def
    op_times_assign_def op_div_assign_def op_mod_assign_def
  by (blast intro: rebind_error)

theorem failed_rebinding_keeps_receiver_witness:
  "fst (op_inc int_max4) = Some (OverflowException int_min4) \<and>
   snd (op_inc int_max4) = int_max4 \<and>
   fst (op_dec int_min4) = Some (OverflowException int_max4) \<and>
   snd (op_dec int_min4) = int_min4 \<and>
   fst (op_plus_assign int_max4 (kOne (Fixed 4))) = Some (OverflowException int_min4) \<and>
   snd (op_plus_assign int_max4 (kOne (Fixed 4))) = int_max4 \<and>
   fst (op_minus_assign int_min4 (kOne (Fixed 4))) = Some (OverflowException int_max4) \<and>
   snd (op_minus_assign int_min4 (kOne (Fixed 4))) = int_min4 \<and>
   fst (op_times_assign False int_min4 (kOne (Fixed 4))) = Some (OverflowException int_min4) \<and>
   snd (op_times_assign False int_min4 (kOne (Fixed 4))) = int_min4 \<and>
   fst (op_div_assign int_max4 (kZero (Fixed 4))) = Some (ArithmeticException ''Division By Zero'') \<and>
   snd (op_div_assign int_max4 (kZero (Fixed 4))) = int_max4 \<and>
   fst (op_mod_assign int_max4 (kZero (Fixed 4))) = Some (ArithmeticException ''Division By Zero'') \<and>
   snd (op_mod_assign int_max4 (kZero (Fixed 4))) = int_max4"
proof -
  have h1: "fst (op_inc int_max4) = Some (OverflowException int_min4)"
    by code_simp
  have h2: "fst (op_dec int_min4) = Some (OverflowException int_max4)"
    by code_simp
  have h3: "fst (op_plus_assign int_max4 (kOne (Fixed 4))) = Some (OverflowException int_min4)"
    by code_simp
  have h4: "fst (op_minus_assign int_min4 (kOne (Fixed 4))) = Some (OverflowException int_max4)"
    by code_simp
  have h5: "fst (op_times_assign False int_min4 (kOne (Fixed 4))) = Some (OverflowException int_min4)"
    by code_simp
  have h6: "fst (op_div_assign int_max4 (kZero (Fixed 4))) = Some (ArithmeticException ''Division By Zero'')"
    by code_simp
  have h7: "fst (op_mod_assign int_max4 (kZero (Fixed 4))) = Some (ArithmeticException ''Division By Zero'')"
    by code_simp
  note t = failed_rebinding_keeps_receiver
  note c1 = t [where xa = int_max4 and ea = "OverflowException int_min4",
    THEN conjunct1, THEN mp, OF h1]
  note c2 = t [where xb = int_min4 and eb = "OverflowException int_max4",
    THEN conjunct2, THEN conjunct1, THEN mp, OF h2]
  note c3 = t [where xc = int_max4 and yc = "kOne (Fixed 4)",
    THEN conjunct2, THEN conjunct2, THEN conjunct1, THEN mp, OF h3]
  note c4 = t [where xd = int_min4 and yd = "kOne (Fixed 4)",
    THEN conjunct2, THEN conjunct2, THEN conjunct2, THEN conjunct1, THEN mp, OF h4]
  note c5 = t [where c = False and xe = int_min4 and ye = "kOne (Fixed 4)",
    THEN conjunct2, THEN conjunct2, THEN conjunct2, THEN conjunct2, THEN conjunct1,
    THEN mp, OF h5]
  note c6 = t [where xf = int_max4 and yf = "kZero (Fixed 4)",
    THEN conjunct2, THEN conjunct2, THEN conjunct2, THEN conjunct2, THEN conjunct2,
    THEN conjunct1, THEN mp, OF h6]
  note c7 = t [where xg = int_max4 and yg = "kZero (Fixed 4)",
    THEN conjunct2, THEN conjunct2, THEN conjunct2, THEN conjunct2, THEN conjunct2,
    THEN conjunct2, THEN mp, OF h7]
  show ?thesis
    by (intro conjI h1 c1 h2 c2 h3 c3 h4 c4 h5 c5 h6 c6 h7 c7)
qed

lemma valid_int_max4: "valid int_max4" and valid_int_min4: "valid int_min4"
  by (simp_all add: valid_def int_max4_def int_min4_def kWidth_Min_def)

lemma most_negative_int_min4: "most_negative int_min4"
  by (simp add: most_negative_def int_min4_def)

lemma not_most_negative_int_max4: "\<not> most_negative int_max4"
  by (simp add: most_negative_def int_max4_def)

text \<open>
  Claim C9. Unary negation of a fixed-width value never fails, and the most negative
  value (sign bit set, every other bit clear) is returned unchanged.
\<close>

theorem negation_of_fixed_width:
  assumes "valid x" and "Width x = Fixed n"
  shows "(\<exists>r. op_neg x = Inr r \<and> valid r \<and> Width r = Fixed n) \<and>
         (most_negative x \<longrightarrow> op_neg x = Inr x)"
  using op_neg_Fixed [OF assms] op_neg_most_negative [OF assms] by blast

theorem negation_of_fixed_width_witness:
  "valid int_min4 \<and> Width int_min4 = Fixed 4 \<and> most_negative int_min4 \<and>
   op_neg int_min4 = Inr int_min4"
proof -
  have w: "Width int_min4 = Fixed 4" by (simp add: int_min4_def)
  from negation_of_fixed_width [OF valid_int_min4 w] most_negative_int_min4
  have "op_neg int_min4 = Inr int_min4" by blast
  with valid_int_min4 w most_negative_int_min4 show ?thesis by blast
qed

text \<open>
  Claim C5, as the code has it. For every value \<open>x\<close> and a zero of any admissible
  width, \<open>x + 0\<close> and \<open>0 + x\<close> return a value equal to \<open>x\<close>. \<open>x + (-x)\<close> returns a value
  equal to zero unless \<open>x\<close> is the most negative value of a fixed width; there \<open>-x\<close> is
  \<open>x\<close> itself and the addition throws \<open>OverflowException\<close> carrying zero.
\<close>

theorem additive_identity_and_inverse:
  assumes "valid x" and "valid_width w"
  shows "(\<exists>r. op_plus x (kZero w) = Inr r \<and> op_eq r x = Inr True) \<and>
         (\<exists>r. op_plus (kZero w) x = Inr r \<and> op_eq r x = Inr True) \<and>
         (\<not> (Is_Limited (Width x) \<and> most_negative x) \<longrightarrow>
            (\<exists>n r. op_neg x = Inr n \<and> op_plus x n = Inr r \<and>
                   op_eq r (kZero (Width x)) = Inr True)) \<and>
         (Is_Limited (Width x) \<and> most_negative x \<longrightarrow>
            op_neg x = Inr x \<and> op_plus x x = Inl (OverflowException (kZero (Width x))))"
proof -
  note z = const_props(1-3) [OF assms(2)]
  define A where "A = max (length (bits x)) (length (bits (kZero w)))"
  have f: "fits A (ival x)" "fits A (ival x + ival (kZero w))" "fits A (ival (kZero w) + ival x)"
    using fits_mono [OF fits_ival [OF assms(1)], of A] by (simp_all add: A_def z(3))
  have A': "max (length (bits (kZero w))) (length (bits x)) = A" by (simp add: A_def max.commute)
  from op_plus_spec(1) [OF assms(1) z(1), folded A_def] f(2)
  obtain r1 where r1: "op_plus x (kZero w) = Inr r1" "valid r1" "ival r1 = ival x"
    by (auto simp add: z(3))
  from op_plus_spec(1) [OF z(1) assms(1), unfolded A'] f(3)
  obtain r2 where r2: "op_plus (kZero w) x = Inr r2" "valid r2" "ival r2 = ival x"
    by (auto simp add: z(3))
  have 1: "\<exists>r. op_plus x (kZero w) = Inr r \<and> op_eq r x = Inr True"
    using r1 op_eq_spec [OF r1(2) assms(1)] by simp
  have 2: "\<exists>r. op_plus (kZero w) x = Inr r \<and> op_eq r x = Inr True"
    using r2 op_eq_spec [OF r2(2) assms(1)] by simp
  note zx = const_props(1-4) [OF valid_valid_width [OF assms(1)]]
  have 3: "\<exists>n r. op_neg x = Inr n \<and> op_plus x n = Inr r \<and> op_eq r (kZero (Width x)) = Inr True"
    if "\<not> (Is_Limited (Width x) \<and> most_negative x)"
  proof -
    from that have "Width x = Unlimited \<or> \<not> most_negative x" by (auto simp add: Is_Limited_def)
    from op_neg_exact [OF assms(1) this] obtain n where
      n: "op_neg x = Inr n" "valid n" "Width n = Width x" "ival n = - ival x" by blast
    have s: "ival x + ival n = 0" by (simp add: n(4))
    have "fits (max (length (bits x)) (length (bits n))) 0" by (simp add: fits_def)
    with op_plus_spec(1) [OF assms(1) n(2)] s
    obtain r where r: "op_plus x n = Inr r" "valid r" "ival r = 0" by auto
    from op_eq_spec [OF r(2) zx(1)] r(3) zx(3) have "op_eq r (kZero (Width x)) = Inr True"
      by simp
    with n(1) r(1) show ?thesis by blast
  qed
  have 4: "op_neg x = Inr x \<and> op_plus x x = Inl (OverflowException (kZero (Width x)))"
    if "Is_Limited (Width x) \<and> most_negative x"
  proof -
    from that obtain n where W: "Width x = Fixed n" and m: "most_negative x"
      by (cases "Width x") (auto simp add: Is_Limited_def)
    have len: "length (bits x) = n" by (rule valid_Fixed [OF assms(1) W])
    then have nb: "nbits x = 8 * n" by (simp add: nbits_def)
    have iv: "ival x = - (2 ^ (8 * n - 1))" using m most_negative_ival [OF assms(1)] nb by simp
    have n0: "0 < 8 * n" using valid_nbits_pos [OF assms(1)] nb by simp
    then have p: "(2::int) ^ (8 * n) = 2 * 2 ^ (8 * n - 1)" by (cases "8 * n") simp_all
    have nf: "\<not> fits n (ival x + ival x)" unfolding iv fits_def by simp
    have "(ival x + ival x) mod 2 ^ (8 * n) = 0" unfolding iv p by simp
    with op_plus_spec(2) [OF assms(1) assms(1)] W len nf
    obtain r where r: "op_plus x x = Inl (OverflowException r)" "Width r = Fixed n"
      "length (bits r) = n" "uv r = 0" by auto
    have "r = kZero (Width x)"
      using r(2-4) zx(2,4) W by (intro Integer_eqI) (simp_all add: nbits_def length_const)
    with r(1) op_neg_most_negative [OF assms(1) W m] show ?thesis by simp
  qed
  from 1 2 3 4 show ?thesis by blast
qed

theorem additive_identity_and_inverse_witness:
  "valid int_max4 \<and> valid_width (Fixed 4) \<and>
   \<not> (Is_Limited (Width int_max4) \<and> most_negative int_max4) \<and>
   (\<exists>r. op_plus int_max4 (kZero (Fixed 4)) = Inr r \<and> op_eq r int_max4 = Inr True) \<and>
   (\<exists>n r. op_neg int_max4 = Inr n \<and> op_plus int_max4 n = Inr r \<and>
          op_eq r (kZero (Width int_max4)) = Inr True) \<and>
   valid int_min4 \<and> Is_Limited (Width int_min4) \<and> most_negative int_min4 \<and>
   op_plus int_min4 int_min4 = Inl (OverflowException (kZero (Width int_min4)))"
proof -
  have w: "valid_width (Fixed 4)" by (simp add: valid_width_def kWidth_Min_def)
  have l: "Is_Limited (Width int_min4)" by (simp add: Is_Limited_def int_min4_def)
  note a = additive_identity_and_inverse [OF valid_int_max4 w]
  note b = additive_identity_and_inverse [OF valid_int_min4 w]
  from a not_most_negative_int_max4
  have 1: "\<exists>r. op_plus int_max4 (kZero (Fixed 4)) = Inr r \<and> op_eq r int_max4 = Inr True"
    and 2: "\<exists>n r. op_neg int_max4 = Inr n \<and> op_plus int_max4 n = Inr r \<and>
          op_eq r (kZero (Width int_max4)) = Inr True"
    by blast+
  from b l most_negative_int_min4
  have 3: "op_plus int_min4 int_min4 = Inl (OverflowException (kZero (Width int_min4)))"
    by blast
  from valid_int_max4 w not_most_negative_int_max4 1 2 valid_int_min4 l most_negative_int_min4 3
  show ?thesis by blast
qed

theorem additive_inverse_counterexample:
  "op_neg int_min4 = Inr int_min4 \<and>
   op_plus int_min4 int_min4 = Inl (OverflowException (kZero (Fixed 4)))"
  by code_simp

text \<open>
  Claim C7. Division and remainder by a zero of any width fail with
  \<open>ArithmeticException("Division By Zero")\<close> and produce no values. For a zero dividend
  and a non-zero divisor, \<open>Div_Mod\<close> returns \<open>{kZero, kZero}\<close>, the zero of the
  dividend's class converted to the result type by the copying constructor: the result
  has the result width and as many zero words as the minimum of the dividend's width.
  That is the zero of the result width (a value respecting the class invariant, equal to
  zero) unless both widths are fixed and the divisor is wider: then the quotient and the
  remainder hold fewer words than their width and break the class invariant.
\<close>

theorem division_by_zero:
  assumes "valid x" and "valid y"
  shows "(is_zero y \<longrightarrow>
            Div_Mod x y = Inl (ArithmeticException ''Division By Zero'') \<and>
            op_div x y = Inl (ArithmeticException ''Division By Zero'') \<and>
            op_mod x y = Inl (ArithmeticException ''Division By Zero'')) \<and>
         (is_zero x \<and> \<not> is_zero y \<longrightarrow>
            (\<exists>z. Div_Mod x y = Inr (z, z) \<and> op_div x y = Inr z \<and> op_mod x y = Inr z \<and>
                 Width z = Get_Max (Width x) (Width y) \<and>
                 bits z = replicate (case Width x of Fixed m \<Rightarrow> m | Unlimited \<Rightarrow> kWidth_Min) 0 \<and>
                 (valid z \<longleftrightarrow> \<not> (\<exists>m n. Width x = Fixed m \<and> Width y = Fixed n \<and> m < n)) \<and>
                 (valid z \<longrightarrow> ival z = 0 \<and>
                    op_eq z (kZero (Get_Max (Width x) (Width y))) = Inr True)))"
proof -
  let ?W = "Get_Max (Width x) (Width y)"
  let ?z = "convert ?W (kZero (Width x))"
  have 1: "Div_Mod x y = Inl (ArithmeticException ''Division By Zero'') \<and>
           op_div x y = Inl (ArithmeticException ''Division By Zero'') \<and>
           op_mod x y = Inl (ArithmeticException ''Division By Zero'')" if "is_zero y"
    using Div_Mod_by_zero [OF assms that] by (simp add: op_div_def op_mod_def)
  have w: "Width ?z = ?W" by (simp add: convert_def)
  have b: "bits ?z = replicate (case Width x of Fixed m \<Rightarrow> m | Unlimited \<Rightarrow> kWidth_Min) 0"
    by (simp add: convert_def kZero_def Integer_new_def)
  have v: "valid ?z \<longleftrightarrow> \<not> (\<exists>m n. Width x = Fixed m \<and> Width y = Fixed n \<and> m < n)"
    using assms by (cases "Width x"; cases "Width y")
      (auto simp add: valid_def convert_def kZero_def Integer_new_def kWidth_Min_def)
  have i: "ival ?z = 0 \<and> op_eq ?z (kZero ?W) = Inr True" if vz: "valid ?z"
  proof -
    have "is_zero ?z" by simp
    with is_zero_ival [OF vz] have z0: "ival ?z = 0" by blast
    have vw: "valid_width ?W" using valid_valid_width [OF vz] by (simp add: w)
    note k = const_props(1-3) [OF vw]
    from op_eq_spec [OF vz k(1)] z0 k(3) show ?thesis by simp
  qed
  have 2: "\<exists>z. Div_Mod x y = Inr (z, z) \<and> op_div x y = Inr z \<and> op_mod x y = Inr z \<and>
                 Width z = ?W \<and>
                 bits z = replicate (case Width x of Fixed m \<Rightarrow> m | Unlimited \<Rightarrow> kWidth_Min) 0 \<and>
                 (valid z \<longleftrightarrow> \<not> (\<exists>m n. Width x = Fixed m \<and> Width y = Fixed n \<and> m < n)) \<and>
                 (valid z \<longrightarrow> ival z = 0 \<and> op_eq z (kZero ?W) = Inr True)"
    if h: "is_zero x \<and> \<not> is_zero y"
  proof -
    from h Div_Mod_of_zero [OF assms] have d: "Div_Mod x y = Inr (?z, ?z)" by simp
    then have "op_div x y = Inr ?z" "op_mod x y = Inr ?z" by (simp_all add: op_div_def op_mod_def)
    with d w b v i show ?thesis by blast
  qed
  from 1 2 show ?thesis by blast
qed

theorem division_by_zero_witness:
  "valid int_max4 \<and> valid (kZero (Fixed 4)) \<and> is_zero (kZero (Fixed 4)) \<and>
   \<not> is_zero int_max4 \<and>
   op_div int_max4 (kZero (Fixed 4)) = Inl (ArithmeticException ''Division By Zero'') \<and>
   op_mod int_max4 (kZero (Fixed 4)) = Inl (ArithmeticException ''Division By Zero'') \<and>
   Div_Mod (kZero (Fixed 4)) int_max4 = Inr (kZero (Fixed 4), kZero (Fixed 4)) \<and>
   valid (kOne (Fixed 8)) \<and> \<not> is_zero (kOne (Fixed 8)) \<and>
   Div_Mod (kZero (Fixed 4)) (kOne (Fixed 8)) = Inr (zero4_as8, zero4_as8) \<and>
   op_div (kZero (Fixed 4)) (kOne (Fixed 8)) = Inr zero4_as8 \<and>
   op_mod (kZero (Fixed 4)) (kOne (Fixed 8)) = Inr zero4_as8 \<and>
   \<not> valid zero4_as8"
proof -
  have v: "valid (kZero (Fixed 4))"
    by (simp add: valid_def kZero_def Integer_new_def kWidth_Min_def)
  have v8: "valid (kOne (Fixed 8))"
    by (simp add: valid_def kOne_def Integer_new_def kWidth_Min_def)
  have nz: "\<not> is_zero int_max4" by (simp add: is_zero_def int_max4_def)
  have nz8: "\<not> is_zero (kOne (Fixed 8))"
    by code_simp
  have z: "is_zero (kZero (Fixed 4))" by (rule is_zero_kZero)
  have nv: "\<not> valid zero4_as8" by (simp add: valid_def zero4_as8_def)
  have e: "\<And>z. Width z = Fixed 4 \<Longrightarrow> bits z = replicate 4 0 \<Longrightarrow> z = kZero (Fixed 4)"
    by (simp add: kZero_def Integer_new_def)
  have e8: "\<And>z. Width z = Fixed 8 \<Longrightarrow> bits z = replicate 4 0 \<Longrightarrow> z = zero4_as8"
    by (simp add: zero4_as8_def numeral_eq_Suc)
  note a = division_by_zero [OF valid_int_max4 v]
  note b = division_by_zero [OF v valid_int_max4]
  note c = division_by_zero [OF v v8]
  from a z have 1: "op_div int_max4 (kZero (Fixed 4)) = Inl (ArithmeticException ''Division By Zero'')"
    "op_mod int_max4 (kZero (Fixed 4)) = Inl (ArithmeticException ''Division By Zero'')"
    by blast+
  from b z nz obtain q where q: "Div_Mod (kZero (Fixed 4)) int_max4 = Inr (q, q)"
    "Width q = Get_Max (Width (kZero (Fixed 4))) (Width int_max4)"
    "bits q = replicate (case Width (kZero (Fixed 4)) of Fixed m \<Rightarrow> m | Unlimited \<Rightarrow> kWidth_Min) 0"
    by blast
  have "q = kZero (Fixed 4)"
    using q(2,3) by (intro e) (simp_all add: kZero_def Integer_new_def int_max4_def)
  with q(1) have 2: "Div_Mod (kZero (Fixed 4)) int_max4 = Inr (kZero (Fixed 4), kZero (Fixed 4))"
    by simp
  from c z nz8 obtain r where r: "Div_Mod (kZero (Fixed 4)) (kOne (Fixed 8)) = Inr (r, r)"
    "op_div (kZero (Fixed 4)) (kOne (Fixed 8)) = Inr r"
    "op_mod (kZero (Fixed 4)) (kOne (Fixed 8)) = Inr r"
    "Width r = Get_Max (Width (kZero (Fixed 4))) (Width (kOne (Fixed 8)))"
    "bits r = replicate (case Width (kZero (Fixed 4)) of Fixed m \<Rightarrow> m | Unlimited \<Rightarrow> kWidth_Min) 0"
    by blast
  have "r = zero4_as8"
    using r(4,5) by (intro e8) (simp_all add: kZero_def kOne_def Integer_new_def)
  with r(1-3) have 3: "Div_Mod (kZero (Fixed 4)) (kOne (Fixed 8)) = Inr (zero4_as8, zero4_as8)"
    "op_div (kZero (Fixed 4)) (kOne (Fixed 8)) = Inr zero4_as8"
    "op_mod (kZero (Fixed 4)) (kOne (Fixed 8)) = Inr zero4_as8" by simp_all
  show ?thesis by (intro conjI valid_int_max4 v z nz 1 2 v8 nz8 3 nv)
qed

lemma op_div_Inr: "op_div x y = Inr q \<Longrightarrow> \<exists>r. Div_Mod x y = Inr (q, r)"
  by (auto simp add: op_div_def split: sum.splits)

lemma op_mod_Inr: "op_mod x y = Inr r \<Longrightarrow> \<exists>q. Div_Mod x y = Inr (q, r)"
  by (auto simp add: op_mod_def split: sum.splits)

lemma Div_Mod_zero_dividend:
  assumes "valid x" and "valid y" and "is_zero x" and "Div_Mod x y = Inr (q, r)"
  shows "length (bits q) = length (bits (kZero (Width x)))"
    and "length (bits r) = length (bits (kZero (Width x)))"
proof -
  have "\<not> is_zero y" using Div_Mod_by_zero [OF assms(1,2)] assms(4) by auto
  from Div_Mod_of_zero [OF assms(1-3) this] assms(4)
  show "length (bits q) = length (bits (kZero (Width x)))"
    and "length (bits r) = length (bits (kZero (Width x)))"
    by (auto simp add: convert_def)
qed

lemma length_kZero_valid:
  assumes "valid x" and "Width x = Fixed m"
  shows "length (bits (kZero (Width x))) = length (bits x)"
  using assms by (simp add: kZero_def valid_def)


text \<open>
  How the program builds the particular values used below: \<open>int_max4\<close> is parsed from
  its decimal string; negating it and subtracting one gives the most negative value of
  four bytes; copying that into an unlimited value (the converting constructor copies
  the words) gives \<open>-2147483648\<close> in four words, whose negation takes five.
\<close>

lemma constructed_values:
  "Deserialize False (Fixed 4) ''2147483647'' = Inr int_max4"
  "op_neg int_max4 = Inr minus_int_max4"
  "op_minus minus_int_max4 (kOne (Fixed 4)) = Inr int_min4"
  "convert Unlimited int_min4 = neg_pow31_short"
  "op_neg neg_pow31_short = Inr pow31_u"
  "op_neg pow31_u = Inr neg_pow31_u"
  "Deserialize False (Fixed 4) ''-7'' = Inr minus7_4"
  by code_simp+



text \<open>
  Claim C3 at a pair of unlimited values the program can build: the absolute value of
  \<open>-2147483648\<close> held in four words takes five words, and \<open>Mul\<close> normalizes the five
  words into a vector of four.
\<close>

theorem unlimited_product_out_of_bounds:
  "valid neg_pow31_short \<and> valid (kOne Unlimited) \<and>
   op_times False neg_pow31_short (kOne Unlimited) = Inl OutOfBounds \<and>
   op_times True neg_pow31_short (kOne Unlimited) = Inl OutOfBounds"
proof -
  have 1: "valid neg_pow31_short" by (simp add: valid_def neg_pow31_short_def kWidth_Min_def)
  have 2: "valid (kOne Unlimited)"
    by (simp add: valid_def kOne_def Integer_new_def kWidth_Min_def)
  have 3: "op_times False neg_pow31_short (kOne Unlimited) = Inl OutOfBounds" by code_simp
  have 4: "op_times True neg_pow31_short (kOne Unlimited) = Inl OutOfBounds" by code_simp
  show ?thesis by (intro conjI 1 2 3 4)
qed

text \<open>
  Claim C2 at operands of four bytes the program can build: the product of the most
  negative value and one is representable, and is reported as an overflow.
\<close>

theorem representable_product_overflows:
  "valid int_min4 \<and> valid (kOne (Fixed 4)) \<and>
   op_times False int_min4 (kOne (Fixed 4)) = Inl (OverflowException int_min4)"
proof -
  have 2: "valid (kOne (Fixed 4))"
    by (simp add: valid_def kOne_def Integer_new_def kWidth_Min_def)
  have 3: "op_times False int_min4 (kOne (Fixed 4)) = Inl (OverflowException int_min4)"
    by code_simp
  show ?thesis by (intro conjI valid_int_min4 2 3)
qed

theorem division_identity_counterexample:
  "Div_Mod minus7_4 (kTwo (Fixed 4)) = Inr (minus3_4, kOne (Fixed 4)) \<and>
   op_times False minus3_4 (kTwo (Fixed 4)) = Inr minus6_4 \<and>
   op_plus minus6_4 (kOne (Fixed 4)) = Inr minus5_4 \<and>
   op_eq minus5_4 minus7_4 = Inr False"
proof -
  have 1: "Div_Mod minus7_4 (kTwo (Fixed 4)) = Inr (minus3_4, kOne (Fixed 4))" by code_simp
  have 2: "op_times False minus3_4 (kTwo (Fixed 4)) = Inr minus6_4" by code_simp
  have 3: "op_plus minus6_4 (kOne (Fixed 4)) = Inr minus5_4" by code_simp
  have 4: "op_eq minus5_4 minus7_4 = Inr False" by code_simp
  show ?thesis by (intro conjI 1 2 3 4)
qed

end
